theory Spec2Isabelle
  imports Complex_Main "HOL-Library.AList" "HOL-Library.Sublist" "HOL-Library.Word"
begin

section \<open>Strings of the program\<close>

text \<open>
  A string of the program is a \<open>string\<close> (a list of characters). The string methods the
  sources call are written out here once: \<open>startsWith\<close>, \<open>endsWith\<close>, \<open>split\<close> on a
  one-character separator, \<open>join\<close>, and the replacement of every backslash by a slash
  that each service calls \<open>normalizePath\<close>.
\<close>

definition startsWith :: "string \<Rightarrow> string \<Rightarrow> bool" where
  "startsWith s t = (take (length t) s = t)"

definition endsWith :: "string \<Rightarrow> string \<Rightarrow> bool" where
  "endsWith s t = (length t \<le> length s \<and> drop (length s - length t) s = t)"

text \<open>\<open>s.split(c)\<close>: the pieces between the separators; an empty string gives one empty piece.\<close>

fun split_on :: "'a \<Rightarrow> 'a list \<Rightarrow> 'a list list" where
  "split_on c [] = [[]]"
| "split_on c (x # xs) =
     (if x = c then [] # split_on c xs
      else (case split_on c xs of [] \<Rightarrow> [[x]] | p # ps \<Rightarrow> (x # p) # ps))"

text \<open>\<open>parts.join(sep)\<close>: an empty array gives the empty string.\<close>

fun join_with :: "string \<Rightarrow> string list \<Rightarrow> string" where
  "join_with sep [] = []"
| "join_with sep [p] = p"
| "join_with sep (p # q # ps) = p @ sep @ join_with sep (q # ps)"

text \<open>\<open>path.replace(/\\/g, '/')\<close>: every backslash (character 92) becomes a slash.\<close>

definition normalizePath :: "string \<Rightarrow> string" where
  "normalizePath p = map (\<lambda>c. if c = CHR 0x5C then CHR ''/'' else c) p"

text \<open>
  A character of \<open>string\<close> is a code unit below 256, so the strings of these modules are
  the strings of the program in the characters U+0000 to U+00FF. On them
  \<open>toLowerCase\<close> works character by character: it maps the letters A to Z and the
  capital letters U+00C0 to U+00DE (the multiplication sign U+00D7 is no letter) to the
  character 32 places further, and leaves every other character. The class \<open>\s\<close> of the
  regular expressions holds, of these characters, tab, line feed, vertical tab, form
  feed, carriage return, space and the no-break space U+00A0.
\<close>

definition upperLatin :: string where
  "upperLatin =
     [CHR 0xC0, CHR 0xC1, CHR 0xC2, CHR 0xC3, CHR 0xC4, CHR 0xC5, CHR 0xC6,
      CHR 0xC7, CHR 0xC8, CHR 0xC9, CHR 0xCA, CHR 0xCB, CHR 0xCC, CHR 0xCD,
      CHR 0xCE, CHR 0xCF, CHR 0xD0, CHR 0xD1, CHR 0xD2, CHR 0xD3, CHR 0xD4,
      CHR 0xD5, CHR 0xD6, CHR 0xD8, CHR 0xD9, CHR 0xDA, CHR 0xDB, CHR 0xDC,
      CHR 0xDD, CHR 0xDE]"

definition lowerLatin :: string where
  "lowerLatin =
     [CHR 0xE0, CHR 0xE1, CHR 0xE2, CHR 0xE3, CHR 0xE4, CHR 0xE5, CHR 0xE6,
      CHR 0xE7, CHR 0xE8, CHR 0xE9, CHR 0xEA, CHR 0xEB, CHR 0xEC, CHR 0xED,
      CHR 0xEE, CHR 0xEF, CHR 0xF0, CHR 0xF1, CHR 0xF2, CHR 0xF3, CHR 0xF4,
      CHR 0xF5, CHR 0xF6, CHR 0xF8, CHR 0xF9, CHR 0xFA, CHR 0xFB, CHR 0xFC,
      CHR 0xFD, CHR 0xFE]"

definition lower_char :: "char \<Rightarrow> char" where
  "lower_char c =
     (case map_of (zip (''ABCDEFGHIJKLMNOPQRSTUVWXYZ'' @ upperLatin)
                       (''abcdefghijklmnopqrstuvwxyz'' @ lowerLatin)) c of
        Some d \<Rightarrow> d | None \<Rightarrow> c)"

definition toLowerCase :: "string \<Rightarrow> string" where
  "toLowerCase s = map lower_char s"

definition isSpace :: "char \<Rightarrow> bool" where
  "isSpace c =
     (c \<in> set [CHR 0x09, CHR 0x0A, CHR 0x0B, CHR 0x0C, CHR 0x0D, CHR 0x20, CHR 0xA0])"

text \<open>The class \<open>\w\<close>: letters, digits and the underscore.\<close>

definition isWordChar :: "char \<Rightarrow> bool" where
  "isWordChar c =
     (c \<in> set ''abcdefghijklmnopqrstuvwxyzABCDEFGHIJKLMNOPQRSTUVWXYZ0123456789_'')"

text \<open>
  \<open>s.split(/[...]+/)\<close> for a character class \<open>sep\<close>: the pieces between the maximal runs
  of separator characters. A leading or trailing run leaves an empty piece at that end,
  and the empty string gives one empty piece.
\<close>

function split_runs :: "('a \<Rightarrow> bool) \<Rightarrow> 'a list \<Rightarrow> 'a list list" where
  "split_runs sep [] = [[]]"
| "split_runs sep (x # xs) =
     (if sep x then [] # split_runs sep (dropWhile sep xs)
      else (case split_runs sep xs of [] \<Rightarrow> [[x]] | p # ps \<Rightarrow> (x # p) # ps))"
  by pat_completeness auto
termination
  by (relation "measure (\<lambda>(sep, s). length s)")
     (auto simp add: length_dropWhile_le less_Suc_eq_le)

text \<open>\<open>text.split(/\s+/).filter(word => word.length > 0).length\<close>, for a non-empty text.\<close>

definition wordsOf :: "string \<Rightarrow> string list" where
  "wordsOf s = filter (\<lambda>w. 0 < length w) (split_runs isSpace s)"

section \<open>FileWatcher\<close>

datatype FileChangeEventType = Add | Change | Unlink | AddDir | UnlinkDir

record PendingChange =
  eventType :: FileChangeEventType
  filePath :: string
  timestamp :: nat

text \<open>
  The watcher's state. \<open>pendingChanges\<close> is the \<open>Map\<close> of the source, kept as an association
  list in insertion order (the order in which the callback is invoked); \<open>debounceTimer\<close>
  says whether a timer is waiting to fire; \<open>onChangeCallback\<close> says whether a callback is
  registered; \<open>delivered\<close> is the log of the callback's invocations, oldest first.
\<close>

record FileWatcher =
  pendingChanges :: "(string \<times> PendingChange) list"
  debounceTimer :: bool
  onChangeCallback :: bool
  changesProcessed :: nat
  delivered :: "(FileChangeEventType \<times> string) list"

definition newFileWatcher :: FileWatcher where
  "newFileWatcher = \<lparr> pendingChanges = [], debounceTimer = False, onChangeCallback = False,
     changesProcessed = 0, delivered = [] \<rparr>"

text \<open>\<open>start\<close> registers the callback (the subscription itself is the environment's).\<close>

definition start :: "FileWatcher \<Rightarrow> FileWatcher" where
  "start w = w\<lparr> onChangeCallback := True \<rparr>"

fun coalesceEventType :: "FileChangeEventType option \<Rightarrow> FileChangeEventType \<Rightarrow> FileChangeEventType" where
  "coalesceEventType None incoming = incoming"
| "coalesceEventType (Some existing) incoming =
     (if existing = Add \<and> incoming = Change then Add
      else if incoming = Unlink \<or> incoming = UnlinkDir then incoming
      else if existing = Unlink \<and> incoming = Add then Change
      else incoming)"

text \<open>
  \<open>handleChange\<close>. \<open>rel\<close> stands for \<open>path.relative(vaultPath, _)\<close> and \<open>now\<close> for
  \<open>Date.now()\<close>. Setting the timer again replaces the one that was waiting.
\<close>

definition handleChange ::
  "(string \<Rightarrow> string) \<Rightarrow> nat \<Rightarrow> FileWatcher \<Rightarrow> FileChangeEventType \<Rightarrow> string \<Rightarrow> FileWatcher" where
  "handleChange rel now w ev path =
     (if ev \<noteq> AddDir \<and> ev \<noteq> UnlinkDir \<and> \<not> endsWith path ''.md'' then w
      else
        let relativePath = rel path;
            existing = map_of (pendingChanges w) relativePath;
            newChange = \<lparr> eventType = coalesceEventType (map_option eventType existing) ev,
                          filePath = relativePath, timestamp = now \<rparr>
        in w\<lparr> pendingChanges := AList.update relativePath newChange (pendingChanges w),
               debounceTimer := True \<rparr>)"

definition processPendingChanges :: "FileWatcher \<Rightarrow> FileWatcher" where
  "processPendingChanges w =
     (if \<not> onChangeCallback w \<or> pendingChanges w = [] then w
      else w\<lparr> delivered := delivered w @ map (\<lambda>(k, c). (eventType c, filePath c)) (pendingChanges w),
               changesProcessed := changesProcessed w + length (pendingChanges w),
               pendingChanges := [] \<rparr>)"

text \<open>The debounce timer fires: the timer is spent and the pending changes are processed.\<close>

definition timerFires :: "FileWatcher \<Rightarrow> FileWatcher" where
  "timerFires w = processPendingChanges (w\<lparr> debounceTimer := False \<rparr>)"

definition stop :: "FileWatcher \<Rightarrow> FileWatcher" where
  "stop w =
     (let w1 = w\<lparr> debounceTimer := False \<rparr>
      in if pendingChanges w1 \<noteq> [] then processPendingChanges w1 else w1)"




text \<open>A stand-in for \<open>path.relative\<close> on paths below the vault: the vault's prefix is dropped.\<close>

definition relativeTo :: "string \<Rightarrow> string \<Rightarrow> string" where
  "relativeTo vault path =
     (if startsWith path (vault @ ''/'') then drop (length vault + 1) path else path)"




section \<open>PersistentCache\<close>

text \<open>
  A row of the store. Times and modification times are numbers of milliseconds; they are
  integers here. \<open>pc_mtime\<close> is the optional \<open>mtime\<close> of the row.
\<close>

record 'a PersistentCacheEntry =
  pc_data :: 'a
  pc_timestamp :: int
  pc_mtime :: "int option"

text \<open>
  A \<open>PersistentCache<T>\<close>: \<open>None\<close> when the database could not be opened (\<open>db\<close> is
  \<open>null\<close>, the memory-only mode), otherwise the rows by key. The database's own operations
  are taken to succeed, so the \<open>catch\<close> branches of the source, which log and return the
  absent value, are not reached.
\<close>

type_synonym 'a PersistentCache = "(string \<rightharpoonup> 'a PersistentCacheEntry) option"

definition pc_get :: "'a PersistentCache \<Rightarrow> string \<Rightarrow> 'a option" where
  "pc_get pc key = (case pc of None \<Rightarrow> None | Some db \<Rightarrow> map_option pc_data (db key))"

definition pc_getWithTtl :: "int \<Rightarrow> 'a PersistentCache \<Rightarrow> string \<Rightarrow> int \<Rightarrow> 'a PersistentCache \<times> 'a option" where
  "pc_getWithTtl now pc key ttl =
     (case pc of None \<Rightarrow> (pc, None)
      | Some db \<Rightarrow>
          (case db key of None \<Rightarrow> (pc, None)
           | Some entry \<Rightarrow>
               if now - pc_timestamp entry > ttl then (Some (db(key := None)), None)
               else (pc, Some (pc_data entry))))"

definition pc_getWithMtime :: "'a PersistentCache \<Rightarrow> string \<Rightarrow> int \<Rightarrow> 'a PersistentCache \<times> 'a option" where
  "pc_getWithMtime pc key currentMtime =
     (case pc of None \<Rightarrow> (pc, None)
      | Some db \<Rightarrow>
          (case db key of None \<Rightarrow> (pc, None)
           | Some entry \<Rightarrow>
               if pc_mtime entry \<noteq> Some currentMtime then (Some (db(key := None)), None)
               else (pc, Some (pc_data entry))))"

definition pc_set :: "int \<Rightarrow> 'a PersistentCache \<Rightarrow> string \<Rightarrow> 'a \<Rightarrow> int option \<Rightarrow> 'a PersistentCache" where
  "pc_set now pc key d m =
     (case pc of None \<Rightarrow> None
      | Some db \<Rightarrow> Some (db(key \<mapsto> \<lparr> pc_data = d, pc_timestamp = now, pc_mtime = m \<rparr>)))"

definition pc_delete :: "'a PersistentCache \<Rightarrow> string \<Rightarrow> 'a PersistentCache" where
  "pc_delete pc key = (case pc of None \<Rightarrow> None | Some db \<Rightarrow> Some (db(key := None)))"

definition pc_clear :: "'a PersistentCache \<Rightarrow> 'a PersistentCache" where
  "pc_clear pc = (case pc of None \<Rightarrow> None | Some db \<Rightarrow> Some Map.empty)"

definition pc_has :: "'a PersistentCache \<Rightarrow> string \<Rightarrow> bool" where
  "pc_has pc key = (case pc of None \<Rightarrow> False | Some db \<Rightarrow> db key \<noteq> None)"

text \<open>
  A cache's \<open>persistentCache\<close> field is a \<open>PersistentCache\<close> or \<open>null\<close>; the calls
  \<open>this.persistentCache?.f(...)\<close> do nothing on \<open>null\<close>.
\<close>

definition opt_delete :: "'a PersistentCache option \<Rightarrow> string \<Rightarrow> 'a PersistentCache option" where
  "opt_delete p key = map_option (\<lambda>pc. pc_delete pc key) p"

definition opt_set :: "int \<Rightarrow> 'a PersistentCache option \<Rightarrow> string \<Rightarrow> 'a \<Rightarrow> int option \<Rightarrow> 'a PersistentCache option" where
  "opt_set now p key d m = map_option (\<lambda>pc. pc_set now pc key d m) p"

definition opt_clear :: "'a PersistentCache option \<Rightarrow> 'a PersistentCache option" where
  "opt_clear p = map_option pc_clear p"

definition opt_has :: "'a PersistentCache option \<Rightarrow> string \<Rightarrow> bool" where
  "opt_has p key = (case p of None \<Rightarrow> False | Some pc \<Rightarrow> pc_has pc key)"

text \<open>
  The \<open>Map\<close> that the content cache and the search cache use as a least-recently-used
  list is an association list, oldest entry first. The eviction loop of \<open>setInMemory\<close>,
  \<open>while (this.cache.size >= this.maxSize)\<close>, deletes the oldest key when there is one;
  with an empty map and a capacity of zero or less it runs for ever, which is the value
  \<open>None\<close>.
\<close>

partial_function (option) evictOldest :: "int \<Rightarrow> ('k \<times> 'v) list \<Rightarrow> ('k \<times> 'v) list option" where
  "evictOldest maxSize c =
     (if maxSize \<le> int (length c)
      then (case c of [] \<Rightarrow> evictOldest maxSize [] | oldest # rest \<Rightarrow> evictOldest maxSize rest)
      else Some c)"

definition setInMemory :: "int \<Rightarrow> ('k \<times> 'v) list \<Rightarrow> 'k \<Rightarrow> 'v \<Rightarrow> ('k \<times> 'v) list option" where
  "setInMemory maxSize c key entry =
     map_option (\<lambda>c'. c' @ [(key, entry)])
       (evictOldest maxSize (if map_of c key \<noteq> None then AList.delete key c else c))"

section \<open>ContentCache\<close>

record 'f ContentCacheEntry =
  content :: string
  mtime :: int
  parsedFrontmatter :: "'f option"
  wordCount :: "nat option"
  lineCount :: "nat option"
  inlineTags :: "string list option"

record 'f ContentCache =
  cc_cache :: "(string \<times> 'f ContentCacheEntry) list"
  cc_maxSize :: int
  cc_persistentCache :: "'f ContentCacheEntry PersistentCache option"

definition computeWordCount :: "string \<Rightarrow> nat" where
  "computeWordCount c = (if c = [] then 0 else length (wordsOf c))"

definition computeLineCount :: "string \<Rightarrow> nat" where
  "computeLineCount c = (if c = [] then 0 else length (split_on CHR 0x0A c))"

text \<open>
  \<open>content.match(/#([\w/-]+)/g)\<close>: from left to right, each \<open>#\<close> that is followed by at
  least one character of the class gives a match that runs as far as the class does, and
  the scan goes on after the match. Each match loses its \<open>#\<close> and is lower-cased;
  \<open>[...new Set(tags)]\<close> keeps the first occurrence of each tag.
\<close>

definition isTagChar :: "char \<Rightarrow> bool" where
  "isTagChar c = (isWordChar c \<or> c = CHR ''/'' \<or> c = CHR ''-'')"

function tagMatches :: "string \<Rightarrow> string list" where
  "tagMatches [] = []"
| "tagMatches (x # xs) =
     (if x = CHR ''#'' \<and> takeWhile isTagChar xs \<noteq> []
      then takeWhile isTagChar xs # tagMatches (dropWhile isTagChar xs)
      else tagMatches xs)"
  by pat_completeness auto
termination
  by (relation "measure length") (auto simp add: length_dropWhile_le less_Suc_eq_le)

definition extractInlineTags :: "string \<Rightarrow> string list" where
  "extractInlineTags c = (if c = [] then [] else rev (remdups (rev (map toLowerCase (tagMatches c)))))"

definition cc_get :: "'f ContentCache \<Rightarrow> string \<Rightarrow> int \<Rightarrow> ('f ContentCache \<times> string option) option" where
  "cc_get cc fpath currentMtime =
     (let normalizedPath = normalizePath fpath in
      case map_of (cc_cache cc) normalizedPath of
        Some memoryEntry \<Rightarrow>
          if mtime memoryEntry \<noteq> currentMtime
          then Some (cc\<lparr> cc_cache := AList.delete normalizedPath (cc_cache cc),
                          cc_persistentCache := opt_delete (cc_persistentCache cc) normalizedPath \<rparr>,
                     None)
          else Some (cc\<lparr> cc_cache := AList.delete normalizedPath (cc_cache cc)
                                        @ [(normalizedPath, memoryEntry)] \<rparr>,
                     Some (content memoryEntry))
      | None \<Rightarrow>
          (case cc_persistentCache cc of
             None \<Rightarrow> Some (cc, None)
           | Some pc \<Rightarrow>
               (case pc_getWithMtime pc normalizedPath currentMtime of
                  (pc', None) \<Rightarrow> Some (cc\<lparr> cc_persistentCache := Some pc' \<rparr>, None)
                | (pc', Some persistedEntry) \<Rightarrow>
                    map_option
                      (\<lambda>c'. (cc\<lparr> cc_cache := c', cc_persistentCache := Some pc' \<rparr>,
                             Some (content persistedEntry)))
                      (setInMemory (cc_maxSize cc) (cc_cache cc) normalizedPath persistedEntry))))"

definition cc_set :: "int \<Rightarrow> 'f ContentCache \<Rightarrow> string \<Rightarrow> string \<Rightarrow> int \<Rightarrow> 'f ContentCache option" where
  "cc_set now cc fpath c m =
     (let normalizedPath = normalizePath fpath;
          entry = \<lparr> content = c, mtime = m, parsedFrontmatter = None,
                    wordCount = Some (computeWordCount c), lineCount = Some (computeLineCount c),
                    inlineTags = Some (extractInlineTags c) \<rparr>
      in map_option
           (\<lambda>c'. cc\<lparr> cc_cache := c',
                       cc_persistentCache := opt_set now (cc_persistentCache cc) normalizedPath entry (Some m) \<rparr>)
           (setInMemory (cc_maxSize cc) (cc_cache cc) normalizedPath entry))"

definition cc_invalidate :: "'f ContentCache \<Rightarrow> string \<Rightarrow> 'f ContentCache" where
  "cc_invalidate cc fpath =
     (let normalizedPath = normalizePath fpath
      in cc\<lparr> cc_cache := AList.delete normalizedPath (cc_cache cc),
              cc_persistentCache := opt_delete (cc_persistentCache cc) normalizedPath \<rparr>)"

definition cc_has :: "'f ContentCache \<Rightarrow> string \<Rightarrow> bool" where
  "cc_has cc fpath =
     (let normalizedPath = normalizePath fpath
      in map_of (cc_cache cc) normalizedPath \<noteq> None \<or> opt_has (cc_persistentCache cc) normalizedPath)"

text \<open>\<open>new ContentCache(maxSize, persistentCache)\<close>.\<close>

definition newContentCache :: "int \<Rightarrow> 'f ContentCacheEntry PersistentCache option \<Rightarrow> 'f ContentCache" where
  "newContentCache n p = \<lparr> cc_cache = [], cc_maxSize = n, cc_persistentCache = p \<rparr>"

section \<open>SearchResultCache\<close>

record Match =
  m_line :: int
  m_column :: "int option"
  m_context :: "string option"
  m_snippet :: "string option"

record SearchResult =
  sr_path :: string
  sr_score :: real
  sr_matches :: "Match list"

text \<open>
  \<open>SearchOptions\<close>: every field is optional. \<open>'n\<close> is the type of numbers and \<open>'f\<close> the
  type of frontmatter objects; the key function reaches them only through the
  number-to-string conversion of a template literal (\<open>numStr\<close> below) and through
  \<open>JSON.stringify\<close> (\<open>stringify\<close> below), which are parameters of the model.
\<close>

record ('n, 'f) SearchOptions =
  query :: "string option"
  glob :: "string option"
  regex :: "string option"
  limit :: "'n option"
  offset :: "'n option"
  minScore :: "'n option"
  tags :: "string list option"
  frontmatter :: "'f option"

definition generateKey :: "('n \<Rightarrow> string) \<Rightarrow> ('f \<Rightarrow> string) \<Rightarrow> ('n, 'f) SearchOptions \<Rightarrow> string" where
  "generateKey numStr stringify opts =
     join_with ''|''
       ((case query opts of Some q \<Rightarrow> (if q \<noteq> [] then [''q:'' @ q] else []) | None \<Rightarrow> [])
        @ (case glob opts of Some g \<Rightarrow> (if g \<noteq> [] then [''g:'' @ g] else []) | None \<Rightarrow> [])
        @ (case regex opts of Some r \<Rightarrow> (if r \<noteq> [] then [''r:'' @ r] else []) | None \<Rightarrow> [])
        @ (case limit opts of Some n \<Rightarrow> [''l:'' @ numStr n] | None \<Rightarrow> [])
        @ (case offset opts of Some n \<Rightarrow> [''o:'' @ numStr n] | None \<Rightarrow> [])
        @ (case minScore opts of Some n \<Rightarrow> [''s:'' @ numStr n] | None \<Rightarrow> [])
        @ (case tags opts of Some ts \<Rightarrow> [''t:'' @ join_with '','' ts] | None \<Rightarrow> [])
        @ (case frontmatter opts of Some f \<Rightarrow> [''f:'' @ stringify f] | None \<Rightarrow> []))"

text \<open>The options object without any field.\<close>

definition noOptions :: "('n, 'f) SearchOptions" where
  "noOptions = \<lparr> query = None, glob = None, regex = None, limit = None, offset = None,
     minScore = None, tags = None, frontmatter = None \<rparr>"

text \<open>
  What the key is made from. A text field that is absent or empty gives no part; a number
  is rendered by \<open>numStr\<close>, the tags by their comma-joined form, the frontmatter by
  \<open>stringify\<close>.
\<close>

definition present :: "string option \<Rightarrow> string option" where
  "present v = (case v of Some s \<Rightarrow> (if s \<noteq> [] then Some s else None) | None \<Rightarrow> None)"

definition rendered :: "('n \<Rightarrow> string) \<Rightarrow> ('f \<Rightarrow> string) \<Rightarrow> ('n, 'f) SearchOptions \<Rightarrow> string option list" where
  "rendered numStr stringify opts =
     [present (query opts), present (glob opts), present (regex opts),
      map_option numStr (limit opts), map_option numStr (offset opts),
      map_option numStr (minScore opts), map_option (join_with '','') (tags opts),
      map_option stringify (frontmatter opts)]"

definition separatorFree :: "('n \<Rightarrow> string) \<Rightarrow> ('f \<Rightarrow> string) \<Rightarrow> ('n, 'f) SearchOptions \<Rightarrow> bool" where
  "separatorFree numStr stringify opts =
     list_all (\<lambda>v. case v of None \<Rightarrow> True | Some s \<Rightarrow> CHR ''|'' \<notin> set s)
       (rendered numStr stringify opts)"

text \<open>
  The parts of a key, from the rendered fields: each field that is there gives its tag
  letter, a colon and its text. \<open>lookupTag\<close> reads a field back from the parts.
\<close>

definition part :: "char \<Rightarrow> string option \<Rightarrow> string list" where
  "part t v = (case v of None \<Rightarrow> [] | Some s \<Rightarrow> [t # CHR '':'' # s])"

definition partsOf :: "string option list \<Rightarrow> string list" where
  "partsOf vs = concat (map2 part ''qgrlostf'' vs)"

definition lookupTag :: "char \<Rightarrow> string list \<Rightarrow> string option" where
  "lookupTag t ps = map_option (drop 2) (find (\<lambda>p. take 1 p = [t]) ps)"

text \<open>A decimal rendering of the natural numbers, for the examples.\<close>

fun decimal :: "nat \<Rightarrow> string" where
  "decimal n =
     (if n < 10 then [''0123456789'' ! n]
      else decimal (n div 10) @ [''0123456789'' ! (n mod 10)])"

text \<open>
  \<open>JSON.stringify\<close> on a frontmatter object. The values are the JSON values without the
  numbers: null, booleans, strings, arrays and objects. An object is the list of its
  properties in the order in which \<open>JSON.stringify\<close> visits them, which for keys that are
  not array indices is the order in which the properties were created. Two objects have
  the same properties when they agree as maps (\<open>map_of\<close>).
\<close>

datatype json =
  JNull | JBool bool | JString string | JArray "json list" | JObject "(string \<times> json) list"

text \<open>
  The quoting of a string: the quotation mark and the backslash are escaped, the control
  characters below U+0020 are written as \<open>\b\<close>, \<open>\t\<close>, \<open>\n\<close>, \<open>\f\<close>, \<open>\r\<close> or with four
  hexadecimal digits, and every other character stands for itself.
\<close>

definition quoteChar :: "char \<Rightarrow> string" where
  "quoteChar c =
     (if c = CHR 0x22 then [CHR 0x5C, CHR 0x22]
      else if c = CHR 0x5C then [CHR 0x5C, CHR 0x5C]
      else if c = CHR 0x08 then [CHR 0x5C, CHR ''b'']
      else if c = CHR 0x09 then [CHR 0x5C, CHR ''t'']
      else if c = CHR 0x0A then [CHR 0x5C, CHR ''n'']
      else if c = CHR 0x0C then [CHR 0x5C, CHR ''f'']
      else if c = CHR 0x0D then [CHR 0x5C, CHR ''r'']
      else if (of_char c :: nat) < 32
        then [CHR 0x5C, CHR ''u'', CHR ''0'', CHR ''0'',
              ''0123456789abcdef'' ! (of_char c div 16), ''0123456789abcdef'' ! (of_char c mod 16)]
      else [c])"

definition quoteJSON :: "string \<Rightarrow> string" where
  "quoteJSON s = [CHR 0x22] @ concat (map quoteChar s) @ [CHR 0x22]"

primrec stringifyValue :: "json \<Rightarrow> string" where
  "stringifyValue JNull = ''null''"
| "stringifyValue (JBool b) = (if b then ''true'' else ''false'')"
| "stringifyValue (JString s) = quoteJSON s"
| "stringifyValue (JArray vs) = ''['' @ join_with '','' (map stringifyValue vs) @ '']''"
| "stringifyValue (JObject ps) =
     ''{'' @ join_with '','' (map (\<lambda>p. quoteJSON (fst p) @ '':'' @ snd p)
                                (map (map_prod id stringifyValue) ps)) @ ''}''"

definition stringifyObject :: "(string \<times> json) list \<Rightarrow> string" where
  "stringifyObject ps = stringifyValue (JObject ps)"

text \<open>
  A stored entry holds either the result list or, when \<open>isCompressed\<close> is set, the
  compressed text.
\<close>

datatype stored = Plain "SearchResult list" | Blob string

record SearchCacheEntry =
  sc_results :: stored
  sc_timestamp :: int
  isCompressed :: bool
  originalSize :: "nat option"

record SearchResultCache =
  src_cache :: "(string \<times> SearchCacheEntry) list"
  src_maxSize :: int
  src_ttl :: int
  src_persistentCache :: "SearchCacheEntry PersistentCache option"

text \<open>
  \<open>JSON.parse(zlib.inflateSync(Buffer.from(text, 'base64')).toString('utf8'))\<close> is a
  parameter, \<open>inflate\<close>, of the model. It throws (\<open>Throws\<close>), or gives a result list, or
  gives some other value (\<open>ParsedOther\<close>: a value that is no array, or an array with an
  element that has no \<open>matches\<close> array).
\<close>

datatype parsed = Throws | ParsedOther | ParsedResults "SearchResult list"

text \<open>
  The value that flows out of \<open>maybeDecompress\<close> under the type \<open>SearchResult[]\<close>: a
  result list, or something \<open>deepCopyResults\<close> cannot map over.
\<close>

datatype flowing = Results "SearchResult list" | NotResults

datatype js_error = TypeError

definition maybeDecompress :: "(string \<Rightarrow> parsed) \<Rightarrow> SearchCacheEntry \<Rightarrow> flowing" where
  "maybeDecompress inflate entry =
     (case sc_results entry of
        Plain rs \<Rightarrow> Results rs
      | Blob text \<Rightarrow>
          if \<not> isCompressed entry then NotResults
          else (case inflate text of
                  ParsedResults rs \<Rightarrow> Results rs
                | ParsedOther \<Rightarrow> NotResults
                | Throws \<Rightarrow> Results []))"

definition deepCopyResults :: "flowing \<Rightarrow> js_error + SearchResult list" where
  "deepCopyResults v = (case v of Results rs \<Rightarrow> Inr rs | NotResults \<Rightarrow> Inl TypeError)"

text \<open>
  \<open>get\<close>. The result is \<open>None\<close> when the call does not return (the eviction loop),
  otherwise the new state with what the call gave: a thrown error, or the returned value,
  which is \<open>null\<close> (\<open>None\<close>) or a result list.
\<close>

definition src_get ::
  "('n \<Rightarrow> string) \<Rightarrow> ('f \<Rightarrow> string) \<Rightarrow> (string \<Rightarrow> parsed) \<Rightarrow> int \<Rightarrow> SearchResultCache
   \<Rightarrow> ('n, 'f) SearchOptions
   \<Rightarrow> (SearchResultCache \<times> (js_error + SearchResult list option)) option" where
  "src_get numStr stringify inflate now sc opts =
     (let key = generateKey numStr stringify opts in
      case map_of (src_cache sc) key of
        Some memoryEntry \<Rightarrow>
          if now - sc_timestamp memoryEntry > src_ttl sc
          then Some (sc\<lparr> src_cache := AList.delete key (src_cache sc),
                          src_persistentCache := opt_delete (src_persistentCache sc) key \<rparr>,
                     Inr None)
          else Some (sc\<lparr> src_cache := AList.delete key (src_cache sc) @ [(key, memoryEntry)] \<rparr>,
                     map_sum id Some (deepCopyResults (maybeDecompress inflate memoryEntry)))
      | None \<Rightarrow>
          (case src_persistentCache sc of
             None \<Rightarrow> Some (sc, Inr None)
           | Some pc \<Rightarrow>
               (case pc_getWithTtl now pc key (src_ttl sc) of
                  (pc', None) \<Rightarrow> Some (sc\<lparr> src_persistentCache := Some pc' \<rparr>, Inr None)
                | (pc', Some persistedEntry) \<Rightarrow>
                    map_option
                      (\<lambda>c'. (sc\<lparr> src_cache := c', src_persistentCache := Some pc' \<rparr>,
                             map_sum id Some (deepCopyResults (maybeDecompress inflate persistedEntry))))
                      (setInMemory (src_maxSize sc) (src_cache sc) key persistedEntry))))"

text \<open>\<open>new SearchResultCache(maxSize, ttl, persistentCache)\<close>.\<close>

definition newSearchResultCache ::
  "int \<Rightarrow> int \<Rightarrow> SearchCacheEntry PersistentCache option \<Rightarrow> SearchResultCache" where
  "newSearchResultCache n t p =
     \<lparr> src_cache = [], src_maxSize = n, src_ttl = t, src_persistentCache = p \<rparr>"

section \<open>FileListCache\<close>

record FileListEntry =
  files :: "string list"
  fl_timestamp :: int

text \<open>
  \<open>fl_cache\<close> is the plain object that the source uses as its store, kept as an
  association list (\<open>Object.keys\<close> is its list of keys).
\<close>

record FileListCache =
  fl_cache :: "(string \<times> FileListEntry) list"
  fl_ttl :: int
  fl_persistentCache :: "FileListEntry PersistentCache option"

definition newFileListCache :: "int \<Rightarrow> FileListEntry PersistentCache option \<Rightarrow> FileListCache" where
  "newFileListCache t p = \<lparr> fl_cache = [], fl_ttl = t, fl_persistentCache = p \<rparr>"

text \<open>
  \<open>normalizeFolder\<close>: backslashes become slashes, the trailing slashes are dropped, and
  the result is lower-cased.
\<close>

definition normalizeFolder :: "string \<Rightarrow> string" where
  "normalizeFolder folder =
     toLowerCase (rev (dropWhile (\<lambda>c. c = CHR ''/'') (rev (normalizePath folder))))"

definition isEntryValid :: "int \<Rightarrow> FileListCache \<Rightarrow> FileListEntry \<Rightarrow> bool" where
  "isEntryValid now fc entry = (now - fl_timestamp entry < fl_ttl fc)"

definition isRelatedFolder :: "string \<Rightarrow> string \<Rightarrow> bool" where
  "isRelatedFolder folder1 folder2 =
     (if folder1 = [] \<or> folder2 = [] then True
      else startsWith folder1 (folder2 @ ''/'') \<or> startsWith folder2 (folder1 @ ''/''))"

definition fl_get :: "int \<Rightarrow> FileListCache \<Rightarrow> string \<Rightarrow> FileListCache \<times> string list option" where
  "fl_get now fc folder =
     (let normalizedFolder = normalizeFolder folder;
          memoryEntry = map_of (fl_cache fc) normalizedFolder;
          expire = (\<lambda>c. if memoryEntry \<noteq> None then AList.delete normalizedFolder c else c)
      in case memoryEntry of
           Some e \<Rightarrow> if isEntryValid now fc e then (fc, Some (files e)) else
             (case fl_persistentCache fc of
                None \<Rightarrow> (fc\<lparr> fl_cache := expire (fl_cache fc) \<rparr>, None)
              | Some pc \<Rightarrow>
                  (case pc_getWithTtl now pc normalizedFolder (fl_ttl fc) of
                     (pc', Some persistedEntry) \<Rightarrow>
                       (fc\<lparr> fl_cache := AList.update normalizedFolder persistedEntry (fl_cache fc),
                             fl_persistentCache := Some pc' \<rparr>, Some (files persistedEntry))
                   | (pc', None) \<Rightarrow>
                       (fc\<lparr> fl_cache := expire (fl_cache fc), fl_persistentCache := Some pc' \<rparr>, None)))
         | None \<Rightarrow>
             (case fl_persistentCache fc of
                None \<Rightarrow> (fc, None)
              | Some pc \<Rightarrow>
                  (case pc_getWithTtl now pc normalizedFolder (fl_ttl fc) of
                     (pc', Some persistedEntry) \<Rightarrow>
                       (fc\<lparr> fl_cache := AList.update normalizedFolder persistedEntry (fl_cache fc),
                             fl_persistentCache := Some pc' \<rparr>, Some (files persistedEntry))
                   | (pc', None) \<Rightarrow> (fc\<lparr> fl_persistentCache := Some pc' \<rparr>, None))))"

definition fl_set :: "int \<Rightarrow> FileListCache \<Rightarrow> string \<Rightarrow> string list \<Rightarrow> FileListCache" where
  "fl_set now fc folder fs =
     (let normalizedFolder = normalizeFolder folder;
          entry = \<lparr> files = fs, fl_timestamp = now \<rparr>
      in fc\<lparr> fl_cache := AList.update normalizedFolder entry (fl_cache fc),
              fl_persistentCache := opt_set now (fl_persistentCache fc) normalizedFolder entry None \<rparr>)"

text \<open>
  \<open>invalidate(folder?)\<close>. With a folder: the folder's own entry is deleted from both
  stores, and then the loop goes over the keys of the in-memory store and deletes, from
  both stores, each key that is related to the folder.
\<close>

definition invalidateStep ::
  "string \<Rightarrow> string
   \<Rightarrow> (string \<times> FileListEntry) list \<times> FileListEntry PersistentCache option
   \<Rightarrow> (string \<times> FileListEntry) list \<times> FileListEntry PersistentCache option" where
  "invalidateStep normalizedFolder cachedFolder s =
     (if isRelatedFolder cachedFolder normalizedFolder
      then (AList.delete cachedFolder (fst s), opt_delete (snd s) cachedFolder)
      else s)"

definition fl_invalidate :: "FileListCache \<Rightarrow> string option \<Rightarrow> FileListCache" where
  "fl_invalidate fc folder =
     (case folder of
        None \<Rightarrow> fc\<lparr> fl_cache := [], fl_persistentCache := opt_clear (fl_persistentCache fc) \<rparr>
      | Some f \<Rightarrow>
          let normalizedFolder = normalizeFolder f;
              c1 = AList.delete normalizedFolder (fl_cache fc);
              p1 = opt_delete (fl_persistentCache fc) normalizedFolder;
              s = fold (invalidateStep normalizedFolder) (map fst c1) (c1, p1)
          in fc\<lparr> fl_cache := fst s, fl_persistentCache := snd s \<rparr>)"

text \<open>Whether the persistent store of a cache holds a row for a key.\<close>

definition persisted :: "'a PersistentCache option \<Rightarrow> string \<Rightarrow> bool" where
  "persisted p key = opt_has p key"

section \<open>InvertedIndex\<close>

record InvertedIndexOptions =
  minWordLength :: int
  maxWordsPerFile :: int
  stopWords :: "string set"

definition DEFAULT_STOP_WORDS :: "string set" where
  "DEFAULT_STOP_WORDS = set
     [''the'', ''a'', ''an'', ''and'', ''or'', ''but'', ''in'', ''on'', ''at'', ''to'', ''for'',
      ''of'', ''with'', ''by'', ''from'', ''as'', ''is'', ''was'', ''are'', ''were'', ''been'',
      ''be'', ''have'', ''has'', ''had'', ''do'', ''does'', ''did'', ''will'', ''would'', ''could'',
      ''should'', ''may'', ''might'', ''must'', ''shall'', ''can'', ''need'', ''dare'', ''ought'',
      ''used'', ''it'', ''its'', ''this'', ''that'', ''these'', ''those'', ''i'', ''you'', ''he'',
      ''she'', ''we'', ''they'', ''what'', ''which'', ''who'', ''whom'', ''whose'', ''where'',
      ''when'', ''why'', ''how'', ''all'', ''each'', ''every'', ''both'', ''few'', ''more'',
      ''most'', ''other'', ''some'', ''such'', ''no'', ''nor'', ''not'', ''only'', ''own'',
      ''same'', ''so'', ''than'', ''too'', ''very'', ''just'', ''also'', ''now'', ''here'']"

definition DEFAULT_INDEX_OPTIONS :: InvertedIndexOptions where
  "DEFAULT_INDEX_OPTIONS =
     \<lparr> minWordLength = 3, maxWordsPerFile = 10000, stopWords = DEFAULT_STOP_WORDS \<rparr>"

text \<open>
  The two maps. A \<open>Set\<close> of words is a list without repetitions, in insertion order (the
  loops of the source go over it); a \<open>Set\<close> of paths is a set.
\<close>

record InvertedIndex =
  wordToFiles :: "string \<rightharpoonup> string set"
  fileToWords :: "string \<rightharpoonup> string list"
  ii_options :: InvertedIndexOptions
  enabled :: bool

definition newInvertedIndex :: "InvertedIndexOptions \<Rightarrow> InvertedIndex" where
  "newInvertedIndex opts =
     \<lparr> wordToFiles = Map.empty, fileToWords = Map.empty, ii_options = opts, enabled = True \<rparr>"

text \<open>
  \<open>extractWords\<close>: the loop over \<open>content.toLowerCase().split(/[\s\W]+/)\<close>, with the
  set of words found so far and the count of words accepted so far.
\<close>

fun extractLoop :: "InvertedIndexOptions \<Rightarrow> string list \<Rightarrow> string list \<Rightarrow> int \<Rightarrow> string list" where
  "extractLoop opts [] ws n = ws"
| "extractLoop opts (word # rawWords) ws n =
     (if int (length word) < minWordLength opts then extractLoop opts rawWords ws n
      else if word \<in> stopWords opts then extractLoop opts rawWords ws n
      else
        let ws' = (if word \<in> set ws then ws else ws @ [word]); n' = n + 1
        in if n' \<ge> maxWordsPerFile opts then ws' else extractLoop opts rawWords ws' n')"

definition extractWords :: "InvertedIndexOptions \<Rightarrow> string \<Rightarrow> string list" where
  "extractWords opts c =
     extractLoop opts (split_runs (\<lambda>x. \<not> isWordChar x) (toLowerCase c)) [] 0"

text \<open>One turn of the loop of \<open>invalidate\<close>, and one turn of the loop of \<open>indexContent\<close>.\<close>

definition removeFile :: "string \<Rightarrow> string \<Rightarrow> (string \<rightharpoonup> string set) \<Rightarrow> (string \<rightharpoonup> string set)" where
  "removeFile normalizedPath word m =
     (case m word of
        None \<Rightarrow> m
      | Some fs \<Rightarrow>
          if fs - {normalizedPath} = {} then m(word := None)
          else m(word \<mapsto> fs - {normalizedPath}))"

definition addFile :: "string \<Rightarrow> string \<Rightarrow> (string \<rightharpoonup> string set) \<Rightarrow> (string \<rightharpoonup> string set)" where
  "addFile normalizedPath word m =
     (case m word of
        None \<Rightarrow> m(word \<mapsto> {normalizedPath})
      | Some fs \<Rightarrow> m(word \<mapsto> insert normalizedPath fs))"

definition ii_invalidate :: "InvertedIndex \<Rightarrow> string \<Rightarrow> InvertedIndex" where
  "ii_invalidate ii fpath =
     (let normalizedPath = normalizePath fpath in
      case fileToWords ii normalizedPath of
        None \<Rightarrow> ii
      | Some ws \<Rightarrow>
          ii\<lparr> wordToFiles := fold (removeFile normalizedPath) ws (wordToFiles ii),
              fileToWords := (fileToWords ii)(normalizedPath := None) \<rparr>)"

definition indexContent :: "InvertedIndex \<Rightarrow> string \<Rightarrow> string \<Rightarrow> InvertedIndex" where
  "indexContent ii fpath c =
     (if \<not> enabled ii \<or> c = [] then ii
      else
        let normalizedPath = normalizePath fpath;
            ii1 = ii_invalidate ii fpath;
            ws = extractWords (ii_options ii1) c
        in ii1\<lparr> fileToWords := (fileToWords ii1)(normalizedPath \<mapsto> ws),
                wordToFiles := fold (addFile normalizedPath) ws (wordToFiles ii1) \<rparr>)"

definition ii_clear :: "InvertedIndex \<Rightarrow> InvertedIndex" where
  "ii_clear ii = ii\<lparr> wordToFiles := Map.empty, fileToWords := Map.empty \<rparr>"

definition setEnabled :: "InvertedIndex \<Rightarrow> bool \<Rightarrow> InvertedIndex" where
  "setEnabled ii b = (let ii' = ii\<lparr> enabled := b \<rparr> in if \<not> b then ii_clear ii' else ii')"

text \<open>The states an index can be in, starting empty.\<close>

inductive ii_reachable :: "InvertedIndexOptions \<Rightarrow> InvertedIndex \<Rightarrow> bool" for opts where
  ii_new: "ii_reachable opts (newInvertedIndex opts)"
| ii_index: "ii_reachable opts ii \<Longrightarrow> ii_reachable opts (indexContent ii fpath c)"
| ii_inval: "ii_reachable opts ii \<Longrightarrow> ii_reachable opts (ii_invalidate ii fpath)"
| ii_enable: "ii_reachable opts ii \<Longrightarrow> ii_reachable opts (setEnabled ii b)"
| ii_clear: "ii_reachable opts ii \<Longrightarrow> ii_reachable opts (ii_clear ii)"

text \<open>
  The word \<open>w\<close> is among \<open>fileToWords[p]\<close>; the path \<open>p\<close> is among \<open>wordToFiles[w]\<close>;
  the two maps are inverse to each other.
\<close>

definition wordOfFile :: "InvertedIndex \<Rightarrow> string \<Rightarrow> string \<Rightarrow> bool" where
  "wordOfFile ii p w = (case fileToWords ii p of None \<Rightarrow> False | Some ws \<Rightarrow> w \<in> set ws)"

definition fileOfWord :: "InvertedIndex \<Rightarrow> string \<Rightarrow> string \<Rightarrow> bool" where
  "fileOfWord ii w p = (case wordToFiles ii w of None \<Rightarrow> False | Some fs \<Rightarrow> p \<in> fs)"

definition mutualInverse :: "InvertedIndex \<Rightarrow> bool" where
  "mutualInverse ii = (\<forall>p w. wordOfFile ii p w = fileOfWord ii w p)"

section \<open>SearchScorer\<close>
































section \<open>PathTrie\<close>

text \<open>
  A node of the trie. The \<open>Map\<close> of children is an association list in insertion order
  (the order in which \<open>collectFiles\<close> visits them), and the \<open>Set\<close> of the files that end
  at the node is a list without repetitions, in insertion order.
\<close>

datatype TrieNode =
  TrieNode (children: "(string \<times> TrieNode) list") (node_files: "string list") (isDirectory: bool)

record PathTrie =
  pt_root :: TrieNode
  pt_fileCount :: int
  pt_allFiles :: "string list"

definition createNode :: TrieNode where
  "createNode = TrieNode [] [] False"

definition newPathTrie :: PathTrie where
  "newPathTrie = \<lparr> pt_root = createNode, pt_fileCount = 0, pt_allFiles = [] \<rparr>"

text \<open>\<open>set.add(x)\<close> on a \<open>Set\<close> kept as a list.\<close>

definition setAdd :: "string \<Rightarrow> string list \<Rightarrow> string list" where
  "setAdd x xs = (if x \<in> set xs then xs else xs @ [x])"

text \<open>\<open>node.children.get(segment)\<close>, with a new node where \<open>insert\<close> creates one.\<close>

definition childOrNew :: "TrieNode \<Rightarrow> string \<Rightarrow> TrieNode" where
  "childOrNew node segment =
     (case map_of (children node) segment of None \<Rightarrow> createNode | Some ch \<Rightarrow> ch)"

text \<open>
  The two loops of \<open>insert\<close>, from the node reached so far: over the segments before the
  last one (an empty segment is skipped; the child is created when it is missing and is
  marked as a directory), and then the step for the file name.
\<close>

fun insertAt :: "string list \<Rightarrow> string \<Rightarrow> string \<Rightarrow> TrieNode \<Rightarrow> TrieNode" where
  "insertAt [] fileName normalizedPath node =
     (if fileName = [] then node
      else
        let fileNode = childOrNew node fileName;
            fileNode' = TrieNode (children fileNode) (setAdd normalizedPath (node_files fileNode))
                          (isDirectory fileNode)
        in TrieNode (AList.update fileName fileNode' (children node)) (node_files node)
             (isDirectory node))"
| "insertAt (segment # rest) fileName normalizedPath node =
     (if segment = [] then insertAt rest fileName normalizedPath node
      else
        let child = childOrNew node segment;
            child' = insertAt rest fileName normalizedPath
                       (TrieNode (children child) (node_files child) True)
        in TrieNode (AList.update segment child' (children node)) (node_files node)
             (isDirectory node))"

definition pt_insert :: "PathTrie \<Rightarrow> string \<Rightarrow> PathTrie" where
  "pt_insert t fpath =
     (if fpath = [] then t
      else
        let normalizedPath = normalizePath fpath in
        if normalizedPath \<in> set (pt_allFiles t) then t
        else
          let segments = split_on CHR ''/'' normalizedPath
          in t\<lparr> pt_allFiles := pt_allFiles t @ [normalizedPath],
                 pt_fileCount := pt_fileCount t + 1,
                 pt_root := insertAt (butlast segments) (last segments) normalizedPath (pt_root t) \<rparr>)"

text \<open>The node at a path of segments below a node, when every child on the way exists.\<close>

fun nodeAt :: "TrieNode \<Rightarrow> string list \<Rightarrow> TrieNode option" where
  "nodeAt node [] = Some node"
| "nodeAt node (segment # rest) =
     (case map_of (children node) segment of None \<Rightarrow> None | Some ch \<Rightarrow> nodeAt ch rest)"

text \<open>
  The source changes a node in place through a reference to it; the model rebuilds the
  trie with the node at the path changed by \<open>g\<close> (and leaves the trie as it is when the
  path does not lead to a node).
\<close>

fun modifyAt :: "string list \<Rightarrow> (TrieNode \<Rightarrow> TrieNode) \<Rightarrow> TrieNode \<Rightarrow> TrieNode" where
  "modifyAt [] g node = g node"
| "modifyAt (segment # rest) g node =
     (case map_of (children node) segment of
        None \<Rightarrow> node
      | Some ch \<Rightarrow>
          TrieNode (AList.update segment (modifyAt rest g ch) (children node)) (node_files node)
            (isDirectory node))"

definition deleteFile :: "string \<Rightarrow> TrieNode \<Rightarrow> TrieNode" where
  "deleteFile normalizedPath node =
     TrieNode (children node) (removeAll normalizedPath (node_files node)) (isDirectory node)"

text \<open>
  One turn of the clean-up loop of \<open>remove\<close> at the node \<open>parentNode\<close>: the child under
  the segment is deleted when it has neither children nor files.
\<close>

definition pruneChild :: "string \<Rightarrow> TrieNode \<Rightarrow> TrieNode" where
  "pruneChild segment parentNode =
     (case map_of (children parentNode) segment of
        None \<Rightarrow> parentNode
      | Some childNode \<Rightarrow>
          if children childNode = [] \<and> node_files childNode = []
          then TrieNode (AList.delete segment (children parentNode)) (node_files parentNode)
                 (isDirectory parentNode)
          else parentNode)"

text \<open>
  The clean-up loop, \<open>for (let i = segments.length - 1; i >= 0; i--)\<close>, with \<open>n\<close> indices
  still to do. \<open>nodePath\<close> holds the root and then the node of each non-empty segment, so
  \<open>nodePath[i]\<close> is the node at the first \<open>i\<close> non-empty segments, and is \<open>undefined\<close> when
  \<open>i\<close> is larger than their number: then reading \<open>parentNode.children\<close> throws, and the
  loop ends there with what it has done.
\<close>

fun cleanupFrom :: "string list \<Rightarrow> string list \<Rightarrow> nat \<Rightarrow> TrieNode \<Rightarrow> TrieNode \<times> js_error option" where
  "cleanupFrom segments nonEmpty 0 r = (r, None)"
| "cleanupFrom segments nonEmpty (Suc i) r =
     (if segments ! i = [] then cleanupFrom segments nonEmpty i r
      else if length nonEmpty < i then (r, Some TypeError)
      else cleanupFrom segments nonEmpty i
             (modifyAt (take i nonEmpty) (pruneChild (segments ! i)) r))"

text \<open>\<open>remove\<close>: the new state, and the error when the call throws.\<close>

definition pt_remove :: "PathTrie \<Rightarrow> string \<Rightarrow> PathTrie \<times> js_error option" where
  "pt_remove t fpath =
     (let normalizedPath = normalizePath fpath in
      if normalizedPath \<notin> set (pt_allFiles t) then (t, None)
      else
        let t1 = t\<lparr> pt_allFiles := removeAll normalizedPath (pt_allFiles t),
                     pt_fileCount := pt_fileCount t - 1 \<rparr>;
            segments = split_on CHR ''/'' normalizedPath;
            nonEmpty = filter (\<lambda>s. s \<noteq> []) segments
        in case nodeAt (pt_root t) nonEmpty of
             None \<Rightarrow> (t1, None)
           | Some node \<Rightarrow>
               let r1 = modifyAt nonEmpty (deleteFile normalizedPath) (pt_root t);
                   (r2, err) = cleanupFrom segments nonEmpty (length segments) r1
               in (t1\<lparr> pt_root := r2 \<rparr>, err))"

definition getAllFiles :: "PathTrie \<Rightarrow> string list" where
  "getAllFiles t = pt_allFiles t"

text \<open>\<open>collectFiles\<close>: the loop over the queue, breadth first.\<close>

function collectQueue :: "TrieNode list \<Rightarrow> string list" where
  "collectQueue [] = []"
| "collectQueue (current # queue) =
     node_files current @ collectQueue (queue @ map snd (children current))"
  by pat_completeness auto
termination
proof (relation "measure (\<lambda>q. sum_list (map size q))")
  show "wf (measure (\<lambda>q. sum_list (map size q)))" by simp
next
  fix current :: TrieNode and queue :: "TrieNode list"
  have "sum_list (map size (map snd ch)) \<le> size_list (size_prod (\<lambda>x. 0) size) ch"
    for ch :: "(string \<times> TrieNode) list"
    by (induction ch) auto
  then have "sum_list (map size (map snd (children current))) < size current"
    by (cases current) (simp add: le_imp_less_Suc)
  then show "(queue @ map snd (children current), current # queue)
      \<in> measure (\<lambda>q. sum_list (map size q))"
    by simp
qed

definition collectFiles :: "TrieNode \<Rightarrow> string list" where
  "collectFiles node = collectQueue [node]"

definition matchPrefix :: "PathTrie \<Rightarrow> string \<Rightarrow> string list" where
  "matchPrefix t pre =
     (if pre = [] then getAllFiles t
      else
        let normalizedPrefix = normalizePath pre;
            segments = filter (\<lambda>s. 0 < length s) (split_on CHR ''/'' normalizedPrefix)
        in case nodeAt (pt_root t) segments of
             None \<Rightarrow> []
           | Some node \<Rightarrow> collectFiles node)"

definition extractSimplePrefix :: "string \<Rightarrow> string" where
  "extractSimplePrefix pattern =
     join_with ''/''
       (takeWhile (\<lambda>segment. \<not> (CHR ''*'' \<in> set segment \<or> CHR ''?'' \<in> set segment
                                  \<or> CHR ''['' \<in> set segment))
          (split_on CHR ''/'' pattern))"

text \<open>
  \<open>matchGlob\<close>. \<open>minimatch\<close> is a library outside the repository; it is the parameter
  \<open>mm\<close> of the model, with \<open>mm file pattern\<close> for \<open>minimatch(file, pattern)\<close>.
\<close>

definition matchGlob :: "(string \<Rightarrow> string \<Rightarrow> bool) \<Rightarrow> PathTrie \<Rightarrow> string \<Rightarrow> string list" where
  "matchGlob mm t pattern =
     (if pattern = [] then getAllFiles t
      else
        let simplePrefix = extractSimplePrefix pattern;
            candidates = (if simplePrefix \<noteq> [] then matchPrefix t simplePrefix else getAllFiles t)
        in filter (\<lambda>file. mm file pattern) candidates)"

text \<open>The states of a trie: from the empty trie, by \<open>insert\<close> and \<open>remove\<close>.\<close>

inductive pt_reachable :: "PathTrie \<Rightarrow> bool" where
  pt_new: "pt_reachable newPathTrie"
| pt_ins: "pt_reachable t \<Longrightarrow> pt_reachable (pt_insert t fpath)"
| pt_rem: "pt_reachable t \<Longrightarrow> pt_reachable (fst (pt_remove t fpath))"

text \<open>
  The file \<open>f\<close> is in the file set of the node at the path \<open>p\<close> below a node; the children
  of every node have distinct keys.
\<close>

fun storedAt :: "TrieNode \<Rightarrow> string list \<Rightarrow> string \<Rightarrow> bool" where
  "storedAt node [] f = (f \<in> set (node_files node))"
| "storedAt node (segment # rest) f =
     (case map_of (children node) segment of None \<Rightarrow> False | Some ch \<Rightarrow> storedAt ch rest f)"

inductive wellKeyed :: "TrieNode \<Rightarrow> bool" where
  "distinct (map fst ch) \<Longrightarrow> (\<And>k n. (k, n) \<in> set ch \<Longrightarrow> wellKeyed n) \<Longrightarrow> wellKeyed (TrieNode ch fs d)"

text \<open>
  The segments of a path that lead to its node, and its file name (the last segment).
\<close>

definition nodePathOf :: "string \<Rightarrow> string list" where
  "nodePathOf f = filter (\<lambda>s. s \<noteq> []) (split_on CHR ''/'' f)"

definition fileNameOf :: "string \<Rightarrow> string" where
  "fileNameOf f = last (split_on CHR ''/'' f)"

text \<open>
  The trie and the file set agree: a file is stored at a node exactly when it is in the
  file set, has a file name, and the node is the one at its non-empty segments.
\<close>

definition trieInv :: "PathTrie \<Rightarrow> bool" where
  "trieInv t = (wellKeyed (pt_root t)
     \<and> (\<forall>p f. storedAt (pt_root t) p f
           = (f \<in> set (pt_allFiles t) \<and> fileNameOf f \<noteq> [] \<and> p = nodePathOf f)))"

text \<open>
  A stored path lies under the literal prefix of a pattern: the pattern has no literal
  prefix, or the path has a file name and its segments begin with those of the prefix.
\<close>

definition underLiteralPrefix :: "string \<Rightarrow> string \<Rightarrow> bool" where
  "underLiteralPrefix pattern f =
     (extractSimplePrefix pattern = []
      \<or> (fileNameOf f \<noteq> []
          \<and> prefix (nodePathOf (normalizePath (extractSimplePrefix pattern))) (nodePathOf f)))"

text \<open>
  A small glob matcher for the examples, in place of the library: \<open>*\<close> is any run of
  characters within a segment, \<open>?\<close> one character, and a segment \<open>**\<close> any number of
  segments.
\<close>

fun segmentMatch :: "string \<Rightarrow> string \<Rightarrow> bool" where
  "segmentMatch [] s = (s = [])"
| "segmentMatch (p # ps) [] = (p = CHR ''*'' \<and> segmentMatch ps [])"
| "segmentMatch (p # ps) (c # cs) =
     (if p = CHR ''*'' then segmentMatch ps (c # cs) \<or> segmentMatch (p # ps) cs
      else (p = CHR ''?'' \<or> p = c) \<and> segmentMatch ps cs)"

fun segmentsMatch :: "string list \<Rightarrow> string list \<Rightarrow> bool" where
  "segmentsMatch [] ss = (ss = [])"
| "segmentsMatch (p # ps) [] = (p = ''**'' \<and> segmentsMatch ps [])"
| "segmentsMatch (p # ps) (s # ss) =
     (if p = ''**'' then segmentsMatch ps (s # ss) \<or> segmentsMatch (p # ps) ss
      else segmentMatch p s \<and> segmentsMatch ps ss)"

definition globMatch :: "string \<Rightarrow> string \<Rightarrow> bool" where
  "globMatch file pattern = segmentsMatch (split_on CHR ''/'' pattern) (split_on CHR ''/'' file)"

text \<open>The test of the loop of \<open>extractSimplePrefix\<close>: a segment without wildcard character.\<close>

definition literalSegment :: "string \<Rightarrow> bool" where
  "literalSegment segment =
     (\<not> (CHR ''*'' \<in> set segment \<or> CHR ''?'' \<in> set segment \<or> CHR ''['' \<in> set segment))"

text \<open>
  Patterns with braces. The library expands the braces of a pattern before it matches:
  \<open>{a,b}.md\<close> stands for the two patterns \<open>a.md\<close> and \<open>b.md\<close>. \<open>expandBraces\<close> does that for
  groups of alternatives that are not nested, and \<open>braceGlobMatch\<close> is the matcher of
  the examples with this expansion in front.
\<close>

function expandBraces :: "string \<Rightarrow> string list" where
  "expandBraces [] = [[]]"
| "expandBraces (c # cs) =
     (if c = CHR ''{'' \<and> CHR ''}'' \<in> set cs
         \<and> CHR '','' \<in> set (takeWhile (\<lambda>x. x \<noteq> CHR ''}'') cs)
      then
        let alternatives = split_on CHR '','' (takeWhile (\<lambda>x. x \<noteq> CHR ''}'') cs);
            rest = expandBraces (tl (dropWhile (\<lambda>x. x \<noteq> CHR ''}'') cs))
        in concat (map (\<lambda>alt. map (\<lambda>r. alt @ r) rest) alternatives)
      else map (\<lambda>r. c # r) (expandBraces cs))"
  by pat_completeness auto
termination
proof (relation "measure length")
  show "wf (measure length)" by simp
next
  fix c :: char and cs :: string
  have "length (tl (dropWhile (\<lambda>x. x \<noteq> CHR ''}'') cs)) \<le> length cs"
    using length_dropWhile_le [of "\<lambda>x. x \<noteq> CHR ''}''" cs] by simp
  then show "(tl (dropWhile (\<lambda>x. x \<noteq> CHR ''}'') cs), c # cs) \<in> measure length"
    by simp
next
  fix c :: char and cs :: string
  show "(cs, c # cs) \<in> measure length" by simp
qed

definition braceGlobMatch :: "string \<Rightarrow> string \<Rightarrow> bool" where
  "braceGlobMatch file pattern = list_ex (\<lambda>p. globMatch file p) (expandBraces pattern)"

text \<open>
  The glob step of \<open>filterFilesByPattern\<close> in the vault service, for a call without a
  regular expression: when the service has a trie and the trie has as many files as the
  list, the trie answers; otherwise the list is filtered with the library's matcher.
\<close>

definition filterFilesByPattern ::
  "(string \<Rightarrow> string \<Rightarrow> bool) \<Rightarrow> PathTrie option \<Rightarrow> string list \<Rightarrow> string option \<Rightarrow> string list" where
  "filterFilesByPattern mm pathTrie fileList globPattern =
     (case globPattern of
        None \<Rightarrow> fileList
      | Some g \<Rightarrow>
          if g = [] then fileList
          else
            (case pathTrie of
               None \<Rightarrow> filter (\<lambda>file. mm file g) fileList
             | Some t \<Rightarrow>
                 if int (length fileList) = pt_fileCount t then matchGlob mm t g
                 else filter (\<lambda>file. mm file g) fileList))"

section \<open>FileWatcher: the markdown filter\<close>

lemma handleChange_filtered:
  "ev \<noteq> AddDir \<Longrightarrow> ev \<noteq> UnlinkDir \<Longrightarrow> \<not> endsWith path ''.md''
   \<Longrightarrow> handleChange rel now w ev path = w"
  by (simp add: handleChange_def)

lemma handleChange_pending:
  "ev = AddDir \<or> ev = UnlinkDir \<or> endsWith path ''.md''
   \<Longrightarrow> map_of (pendingChanges (handleChange rel now w ev path)) (rel path)
       = Some \<lparr> eventType = coalesceEventType (map_option eventType (map_of (pendingChanges w) (rel path))) ev,
                filePath = rel path, timestamp = now \<rparr>"
  by (auto simp add: handleChange_def Let_def update_conv')

lemma handleChange_distinct:
  "distinct (map fst (pendingChanges w))
   \<Longrightarrow> distinct (map fst (pendingChanges (handleChange rel now w ev path)))"
  by (simp add: handleChange_def Let_def distinct_update)

text \<open>
  C10. A raw event of kind add, change or unlink whose path does not end in \<open>.md\<close> leaves
  the watcher exactly as it was: no pending change is recorded, the timer is not touched,
  and what the next firing of the timer (or \<open>stop\<close>) delivers is what it would have
  delivered without the event. The directory events are exempt: whatever the path, an
  addDir or unlinkDir is recorded as the pending change of its relative path.
\<close>

theorem C10_markdown_filter:
  "(ev \<in> {Add, Change, Unlink} \<and> \<not> endsWith path ''.md''
      \<longrightarrow> handleChange rel now w ev path = w
        \<and> timerFires (handleChange rel now w ev path) = timerFires w
        \<and> stop (handleChange rel now w ev path) = stop w)
   \<and> (ev \<in> {AddDir, UnlinkDir}
      \<longrightarrow> map_option filePath (map_of (pendingChanges (handleChange rel now w ev path)) (rel path))
          = Some (rel path))"
proof (intro conjI impI)
  assume a: "ev \<in> {Add, Change, Unlink} \<and> \<not> endsWith path ''.md''"
  then have "handleChange rel now w ev path = w"
    by (intro handleChange_filtered) auto
  then show "handleChange rel now w ev path = w"
    and "timerFires (handleChange rel now w ev path) = timerFires w"
    and "stop (handleChange rel now w ev path) = stop w"
    by simp_all
next
  assume "ev \<in> {AddDir, UnlinkDir}"
  then have "ev = AddDir \<or> ev = UnlinkDir \<or> endsWith path ''.md''" by auto
  from handleChange_pending [OF this]
  show "map_option filePath (map_of (pendingChanges (handleChange rel now w ev path)) (rel path))
          = Some (rel path)"
    by simp
qed

theorem C10_markdown_filter_witness:
  "handleChange (relativeTo ''/vault'') 7 (start newFileWatcher) Add ''/vault/img/logo.png''
     = start newFileWatcher
   \<and> delivered (timerFires (handleChange (relativeTo ''/vault'') 7 (start newFileWatcher) Add
        ''/vault/img/logo.png'')) = []
   \<and> map_option filePath (map_of (pendingChanges
        (handleChange (relativeTo ''/vault'') 7 (start newFileWatcher) AddDir ''/vault/img.v2'')) ''img.v2'')
     = Some ''img.v2''"
proof -
  have ne: "\<not> endsWith ''/vault/img/logo.png'' ''.md''"
    by (simp add: endsWith_def)
  have r: "relativeTo ''/vault'' ''/vault/img.v2'' = ''img.v2''"
    by (simp add: relativeTo_def startsWith_def)
  note a = C10_markdown_filter [of Add "''/vault/img/logo.png''" "relativeTo ''/vault''" 7
      "start newFileWatcher"]
  note b = C10_markdown_filter [of AddDir "''/vault/img.v2''" "relativeTo ''/vault''" 7
      "start newFileWatcher"]
  have "delivered (timerFires (start newFileWatcher)) = []"
    by (simp add: timerFires_def processPendingChanges_def start_def newFileWatcher_def)
  with a b ne r show ?thesis by simp
qed

section \<open>FileWatcher: coalescing within one debounce window\<close>













section \<open>ContentCache: a stale entry is a miss and is deleted\<close>

text \<open>The eviction loop: it ends when the capacity is positive, and only then.\<close>

lemma evictOldest_returns: "0 < maxSize \<Longrightarrow> \<exists>c'. evictOldest maxSize c = Some c'"
proof (induction c)
  case Nil
  then show ?case by (subst evictOldest.simps) simp
next
  case (Cons x c)
  then show ?case by (subst evictOldest.simps) simp
qed

lemma evictOldest_subset: "evictOldest maxSize c = Some c' \<Longrightarrow> set c' \<subseteq> set c"
proof (induction rule: evictOldest.raw_induct [rotated, consumes 1])
  case (1 evictOldest maxSize c y)
  then show ?case by (fastforce split: if_splits list.splits)
qed

lemma evictOldest_diverges: "maxSize \<le> 0 \<Longrightarrow> evictOldest maxSize c = None"
proof -
  have "evictOldest maxSize c = Some y \<Longrightarrow> 0 < maxSize" for y
  proof (induction rule: evictOldest.raw_induct [rotated, consumes 1])
    case (1 evictOldest maxSize c y)
    then show ?case by (fastforce split: if_splits list.splits)
  qed
  then show "maxSize \<le> 0 \<Longrightarrow> evictOldest maxSize c = None"
    by (cases "evictOldest maxSize c") auto
qed

lemma setInMemory_returns: "0 < maxSize \<Longrightarrow> \<exists>c'. setInMemory maxSize c key entry = Some c'"
  using evictOldest_returns [of maxSize] by (auto simp add: setInMemory_def)

lemma setInMemory_lookup:
  assumes "setInMemory maxSize c key entry = Some c'"
  shows "map_of c' key = Some entry"
proof -
  let ?d = "if map_of c key \<noteq> None then AList.delete key c else c"
  from assms obtain c'' where e: "evictOldest maxSize ?d = Some c''" and c': "c' = c'' @ [(key, entry)]"
    by (auto simp add: setInMemory_def)
  have "map_of ?d key = None" by (simp add: delete_conv')
  then have "key \<notin> fst ` set ?d" by (simp add: map_of_eq_None_iff)
  with evictOldest_subset [OF e] have "key \<notin> fst ` set c''" by auto
  then have "map_of c'' key = None" by (simp add: map_of_eq_None_iff)
  with c' show ?thesis by (simp add: map_add_def)
qed

text \<open>
  C4. Let \<open>m1\<close> and \<open>m2\<close> be distinct modification times. Whenever
  \<open>set(path, content, m1)\<close> returns, the call \<open>get(path, m2)\<close> that follows returns
  normally with the absent value, and afterwards \<open>has(path)\<close> is false: the entry is gone
  from the in-memory map and from the persistent store. And \<open>set\<close> does return when the
  cache's capacity is at least one.
\<close>

theorem C4_stale_entry:
  assumes "m1 \<noteq> m2"
  shows "(\<forall>cc1. cc_set now cc fpath c m1 = Some cc1
           \<longrightarrow> (\<exists>cc2. cc_get cc1 fpath m2 = Some (cc2, None)
                  \<and> \<not> cc_has cc2 fpath
                  \<and> map_of (cc_cache cc2) (normalizePath fpath) = None
                  \<and> \<not> opt_has (cc_persistentCache cc2) (normalizePath fpath)))
       \<and> (0 < cc_maxSize cc \<longrightarrow> cc_set now cc fpath c m1 \<noteq> None)"
proof (intro conjI allI impI)
  fix cc1
  assume s: "cc_set now cc fpath c m1 = Some cc1"
  let ?np = "normalizePath fpath"
  let ?e = "\<lparr> content = c, mtime = m1, parsedFrontmatter = None,
              wordCount = Some (computeWordCount c), lineCount = Some (computeLineCount c),
              inlineTags = Some (extractInlineTags c) \<rparr> :: 'a ContentCacheEntry"
  from s obtain c' where m: "setInMemory (cc_maxSize cc) (cc_cache cc) ?np ?e = Some c'"
    and cc1: "cc1 = cc\<lparr> cc_cache := c',
                cc_persistentCache := opt_set now (cc_persistentCache cc) ?np ?e (Some m1) \<rparr>"
    by (auto simp add: cc_set_def Let_def)
  from setInMemory_lookup [OF m] cc1 have l: "map_of (cc_cache cc1) ?np = Some ?e" by simp
  let ?cc2 = "cc1\<lparr> cc_cache := AList.delete ?np (cc_cache cc1),
                   cc_persistentCache := opt_delete (cc_persistentCache cc1) ?np \<rparr>"
  from l assms have g: "cc_get cc1 fpath m2 = Some (?cc2, None)"
    by (simp add: cc_get_def Let_def)
  have a: "map_of (cc_cache ?cc2) ?np = None" by (simp add: delete_conv')
  have b: "\<not> opt_has (cc_persistentCache ?cc2) ?np"
    by (simp add: opt_has_def opt_delete_def pc_has_def pc_delete_def split: option.splits)
  from a b have "\<not> cc_has ?cc2 fpath" by (simp add: cc_has_def Let_def)
  with g a b show "\<exists>cc2. cc_get cc1 fpath m2 = Some (cc2, None)
                  \<and> \<not> cc_has cc2 fpath
                  \<and> map_of (cc_cache cc2) (normalizePath fpath) = None
                  \<and> \<not> opt_has (cc_persistentCache cc2) (normalizePath fpath)"
    by blast
next
  assume "0 < cc_maxSize cc"
  from setInMemory_returns [OF this]
  show "cc_set now cc fpath c m1 \<noteq> None"
    by (simp add: cc_set_def Let_def)
qed

theorem C4_stale_entry_witness:
  "(100::int) \<noteq> 200
   \<and> (\<exists>cc1. cc_set 1000 (newContentCache 100 (Some (Some Map.empty))) ''notes/a.md'' ''hello #Tag'' 100
           = Some (cc1 :: unit ContentCache)
         \<and> (\<exists>cc2. cc_get cc1 ''notes/a.md'' 200 = Some (cc2, None) \<and> \<not> cc_has cc2 ''notes/a.md''))"
proof -
  let ?cc = "newContentCache 100 (Some (Some Map.empty)) :: unit ContentCache"
  have ne: "(100::int) \<noteq> 200" by simp
  note t = C4_stale_entry [OF ne, of 1000 ?cc "''notes/a.md''" "''hello #Tag''"]
  have "0 < cc_maxSize ?cc" by (simp add: newContentCache_def)
  with t obtain cc1 where s: "cc_set 1000 ?cc ''notes/a.md'' ''hello #Tag'' 100 = Some cc1"
    by blast
  with t obtain cc2 where "cc_get cc1 ''notes/a.md'' 200 = Some (cc2, None)"
    and "\<not> cc_has cc2 ''notes/a.md''"
    by blast
  with s ne show ?thesis by blast
qed

section \<open>SearchResultCache: the key of a search\<close>

text \<open>
  Where the key does tell two searches apart: when no rendered field contains the
  separator, the key determines the rendered fields. Splitting a joined list at the
  separator gives the list back.
\<close>

lemma split_on_no_sep: "c \<notin> set p \<Longrightarrow> split_on c p = [p]"
  by (induction p) auto

lemma split_on_append_sep:
  "c \<notin> set p \<Longrightarrow> split_on c (p @ c # rest) = p # split_on c rest"
  by (induction p) auto

lemma split_join:
  "ps \<noteq> [] \<Longrightarrow> \<forall>p \<in> set ps. c \<notin> set p \<Longrightarrow> split_on c (join_with [c] ps) = ps"
proof (induction "[c]" ps rule: join_with.induct)
  case 1
  then show ?case by simp
next
  case (2 p)
  then show ?case by (simp add: split_on_no_sep)
next
  case (3 p q ps)
  then show ?case by (simp add: split_on_append_sep)
qed

lemma join_nonempty: "ps \<noteq> [] \<Longrightarrow> \<forall>p \<in> set ps. p \<noteq> [] \<Longrightarrow> join_with sep ps \<noteq> []"
  by (induction sep ps rule: join_with.induct) auto

lemma join_inj:
  assumes "\<forall>p \<in> set ps. c \<notin> set p \<and> p \<noteq> []" and "\<forall>p \<in> set qs. c \<notin> set p \<and> p \<noteq> []"
    and "join_with [c] ps = join_with [c] qs"
  shows "ps = qs"
proof (cases "ps = [] \<or> qs = []")
  case True
  have "ps = [] \<longleftrightarrow> join_with [c] ps = []"
    using assms(1) join_nonempty [of ps "[c]"] by auto
  moreover have "qs = [] \<longleftrightarrow> join_with [c] qs = []"
    using assms(2) join_nonempty [of qs "[c]"] by auto
  ultimately show ?thesis using True assms(3) by auto
next
  case False
  from False assms(1) have "split_on c (join_with [c] ps) = ps"
    by (simp add: split_join)
  moreover from False assms(2) have "split_on c (join_with [c] qs) = qs"
    by (simp add: split_join)
  ultimately show ?thesis using assms(3) by metis
qed

lemma part_present:
  "(case v of Some q \<Rightarrow> (if q \<noteq> [] then [[t, CHR '':''] @ q] else []) | None \<Rightarrow> [])
     = part t (present v)"
  by (simp add: part_def present_def split: option.splits)

lemma part_map:
  "(case v of Some n \<Rightarrow> [[t, CHR '':''] @ f n] | None \<Rightarrow> []) = part t (map_option f v)"
  by (simp add: part_def split: option.splits)

lemma generateKey_rendered:
  "generateKey numStr stringify opts = join_with ''|'' (partsOf (rendered numStr stringify opts))"
  by (simp add: generateKey_def partsOf_def rendered_def part_present part_map)

lemma lookupTag_part:
  "lookupTag t (part t' v @ rest)
     = (if t = t' then (case v of Some s \<Rightarrow> Some s | None \<Rightarrow> lookupTag t rest)
        else lookupTag t rest)"
  by (cases v) (auto simp add: lookupTag_def part_def)

lemma lookupTag_last:
  "lookupTag t (part t' v) = (if t = t' then v else None)"
  by (cases v) (auto simp add: lookupTag_def part_def)

lemma case_option_id: "(case v of None \<Rightarrow> None | Some s \<Rightarrow> Some s) = v"
  by (cases v) simp_all

lemma lookupTag_Nil: "lookupTag t [] = None"
  by (simp add: lookupTag_def)

lemma partsOf_determines:
  assumes "length vs = 8" and "length ws = 8" and "partsOf vs = partsOf ws"
  shows "vs = ws"
proof -
  from assms(1) obtain v1 v2 v3 v4 v5 v6 v7 v8 where vs: "vs = [v1, v2, v3, v4, v5, v6, v7, v8]"
    by (auto simp add: length_Suc_conv eval_nat_numeral)
  from assms(2) obtain w1 w2 w3 w4 w5 w6 w7 w8 where ws: "ws = [w1, w2, w3, w4, w5, w6, w7, w8]"
    by (auto simp add: length_Suc_conv eval_nat_numeral)
  have l: "\<And>t. lookupTag t (partsOf vs) = lookupTag t (partsOf ws)"
    using assms(3) by simp
  have v: "map (\<lambda>t. lookupTag t (partsOf vs)) ''qgrlostf'' = vs"
    unfolding vs partsOf_def by (simp add: lookupTag_part lookupTag_last case_option_id cong: option.case_cong)
  have w: "map (\<lambda>t. lookupTag t (partsOf ws)) ''qgrlostf'' = ws"
    unfolding ws partsOf_def by (simp add: lookupTag_part lookupTag_last case_option_id cong: option.case_cong)
  from v w l show ?thesis by simp
qed

lemma partsOf_clean:
  assumes "list_all (\<lambda>v. case v of None \<Rightarrow> True | Some s \<Rightarrow> c \<notin> set s) vs" and "c \<noteq> CHR '':''"
    and "c \<notin> set ''qgrlostf''" and "length vs = 8"
  shows "\<forall>p \<in> set (partsOf vs). c \<notin> set p \<and> p \<noteq> []"
proof -
  from assms(4) obtain v1 v2 v3 v4 v5 v6 v7 v8 where vs: "vs = [v1, v2, v3, v4, v5, v6, v7, v8]"
    by (auto simp add: length_Suc_conv eval_nat_numeral)
  show ?thesis using assms(1,2,3) unfolding vs partsOf_def
    by (auto simp add: part_def split: option.splits)
qed

lemma rendered_length: "length (rendered numStr stringify opts) = 8"
  by (simp add: rendered_def)

lemma key_injective:
  assumes "separatorFree numStr stringify a" and "separatorFree numStr stringify b"
  shows "(generateKey numStr stringify a = generateKey numStr stringify b)
       = (rendered numStr stringify a = rendered numStr stringify b)"
proof
  assume k: "generateKey numStr stringify a = generateKey numStr stringify b"
  have ca: "\<forall>p \<in> set (partsOf (rendered numStr stringify a)). CHR ''|'' \<notin> set p \<and> p \<noteq> []"
    using assms(1) by (intro partsOf_clean) (simp_all add: separatorFree_def rendered_length)
  have cb: "\<forall>p \<in> set (partsOf (rendered numStr stringify b)). CHR ''|'' \<notin> set p \<and> p \<noteq> []"
    using assms(2) by (intro partsOf_clean) (simp_all add: separatorFree_def rendered_length)
  from k have "join_with [CHR ''|''] (partsOf (rendered numStr stringify a))
      = join_with [CHR ''|''] (partsOf (rendered numStr stringify b))"
    by (simp add: generateKey_rendered)
  with ca cb have "partsOf (rendered numStr stringify a) = partsOf (rendered numStr stringify b)"
    by (rule join_inj)
  then show "rendered numStr stringify a = rendered numStr stringify b"
    by (intro partsOf_determines) (simp_all add: rendered_length)
next
  assume "rendered numStr stringify a = rendered numStr stringify b"
  then show "generateKey numStr stringify a = generateKey numStr stringify b"
    by (simp add: generateKey_rendered)
qed

text \<open>
  A text field that is given as the empty string is treated as absent.
\<close>

lemma generateKey_empty_text:
  "(noOptions\<lparr> query := Some '''', glob := Some ''*.md'' \<rparr> :: (nat, unit) SearchOptions)
     \<noteq> noOptions\<lparr> glob := Some ''*.md'' \<rparr>
   \<and> generateKey decimal (\<lambda>u::unit. ''{}'') (noOptions\<lparr> query := Some '''', glob := Some ''*.md'' \<rparr>)
       = generateKey decimal (\<lambda>u::unit. ''{}'') (noOptions\<lparr> glob := Some ''*.md'' \<rparr>)"
  by (simp add: generateKey_def noOptions_def)

lemma stringifyObject_example:
  "stringifyObject [(''status'', JString ''draft''), (''done'', JBool True)]
     = [CHR ''{'', CHR 0x22] @ ''status'' @ [CHR 0x22, CHR '':'', CHR 0x22] @ ''draft''
       @ [CHR 0x22, CHR '','', CHR 0x22] @ ''done'' @ [CHR 0x22] @ '':true}''"
  by (simp add: stringifyObject_def quoteJSON_def quoteChar_def)

text \<open>
  C2. The claim is that two option records that differ in a field never get the same
  key, and that two records with the same field values get the same key in whatever
  order they were built. The code does otherwise. The key joins the tags with a comma
  and the parts with \<open>|\<close> and escapes neither: the searches for the one tag \<open>a,b\<close> and for
  the two tags \<open>a\<close> and \<open>b\<close> get the same key, and so do the search for the query \<open>a|g:b\<close>
  and the search for the query \<open>a\<close> with the glob \<open>b\<close>. And the frontmatter enters the key
  through \<open>JSON.stringify\<close>, which writes the properties in the order of their creation:
  two frontmatter filters with the same properties, built in different orders, get
  different keys.
\<close>

theorem C2_key_collisions:
  "(noOptions\<lparr> tags := Some [''a,b''] \<rparr> :: (nat, (string \<times> json) list) SearchOptions)
     \<noteq> noOptions\<lparr> tags := Some [''a'', ''b''] \<rparr>
   \<and> generateKey decimal stringifyObject (noOptions\<lparr> tags := Some [''a,b''] \<rparr>) = ''t:a,b''
   \<and> generateKey decimal stringifyObject (noOptions\<lparr> tags := Some [''a'', ''b''] \<rparr>) = ''t:a,b''
   \<and> (noOptions\<lparr> query := Some ''a|g:b'' \<rparr> :: (nat, (string \<times> json) list) SearchOptions)
     \<noteq> noOptions\<lparr> query := Some ''a'', glob := Some ''b'' \<rparr>
   \<and> generateKey decimal stringifyObject (noOptions\<lparr> query := Some ''a|g:b'' \<rparr>) = ''q:a|g:b''
   \<and> generateKey decimal stringifyObject (noOptions\<lparr> query := Some ''a'', glob := Some ''b'' \<rparr>)
       = ''q:a|g:b''
   \<and> map_of [(''a'', JBool True), (''b'', JBool True)] = map_of [(''b'', JBool True), (''a'', JBool True)]
   \<and> generateKey decimal stringifyObject
        (noOptions\<lparr> frontmatter := Some [(''a'', JBool True), (''b'', JBool True)] \<rparr>)
       \<noteq> generateKey decimal stringifyObject
        (noOptions\<lparr> frontmatter := Some [(''b'', JBool True), (''a'', JBool True)] \<rparr>)"
proof -
  have 1: "(noOptions\<lparr> tags := Some [''a,b''] \<rparr> :: (nat, (string \<times> json) list) SearchOptions)
      \<noteq> noOptions\<lparr> tags := Some [''a'', ''b''] \<rparr>"
    by (simp add: noOptions_def)
  have 2: "generateKey decimal stringifyObject (noOptions\<lparr> tags := Some [''a,b''] \<rparr>) = ''t:a,b''"
    by (simp add: generateKey_def noOptions_def)
  have 3: "generateKey decimal stringifyObject (noOptions\<lparr> tags := Some [''a'', ''b''] \<rparr>) = ''t:a,b''"
    by (simp add: generateKey_def noOptions_def)
  have 4: "(noOptions\<lparr> query := Some ''a|g:b'' \<rparr> :: (nat, (string \<times> json) list) SearchOptions)
      \<noteq> noOptions\<lparr> query := Some ''a'', glob := Some ''b'' \<rparr>"
    by (simp add: noOptions_def)
  have 5: "generateKey decimal stringifyObject (noOptions\<lparr> query := Some ''a|g:b'' \<rparr>) = ''q:a|g:b''"
    by (simp add: generateKey_def noOptions_def)
  have 6: "generateKey decimal stringifyObject (noOptions\<lparr> query := Some ''a'', glob := Some ''b'' \<rparr>)
      = ''q:a|g:b''"
    by (simp add: generateKey_def noOptions_def)
  have 7: "map_of [(''a'', JBool True), (''b'', JBool True)]
      = map_of [(''b'', JBool True), (''a'', JBool True)]"
    by (auto simp add: fun_eq_iff)
  have 8: "generateKey decimal stringifyObject
        (noOptions\<lparr> frontmatter := Some [(''a'', JBool True), (''b'', JBool True)] \<rparr>)
      \<noteq> generateKey decimal stringifyObject
        (noOptions\<lparr> frontmatter := Some [(''b'', JBool True), (''a'', JBool True)] \<rparr>)"
    by (simp add: generateKey_def noOptions_def stringifyObject_def quoteJSON_def quoteChar_def)
  from 1 2 3 4 5 6 7 8 show ?thesis by (intro conjI)
qed

section \<open>SearchResultCache: a compressed entry that cannot be read back\<close>

text \<open>
  What \<open>get\<close> gives for a key that is in neither store: the absent value.
\<close>

lemma src_get_never_stored:
  assumes "map_of (src_cache sc) (generateKey numStr stringify opts) = None"
    and "\<forall>pc db. src_persistentCache sc = Some pc \<longrightarrow> pc = Some db
           \<longrightarrow> db (generateKey numStr stringify opts) = None"
  shows "src_get numStr stringify inflate now sc opts = Some (sc, Inr None)"
proof (cases "src_persistentCache sc")
  case None
  with assms(1) show ?thesis by (simp add: src_get_def Let_def)
next
  case (Some pc)
  show ?thesis
  proof (cases pc)
    case None
    with Some assms(1) show ?thesis
      by (simp add: src_get_def Let_def pc_getWithTtl_def)
  next
    case (Some db)
    with \<open>src_persistentCache sc = Some pc\<close> assms(2)
    have "db (generateKey numStr stringify opts) = None" by simp
    with Some \<open>src_persistentCache sc = Some pc\<close> assms(1) show ?thesis
      by (simp add: src_get_def Let_def pc_getWithTtl_def)
  qed
qed

text \<open>
  What \<open>get\<close> gives for an unexpired in-memory entry that is flagged as compressed and
  whose text makes the decompression or the parse throw: the empty result list, a hit.
\<close>

lemma src_get_undecodable:
  assumes "map_of (src_cache sc) (generateKey numStr stringify opts) = Some entry"
    and "sc_results entry = Blob text" and "isCompressed entry" and "inflate text = Throws"
    and "\<not> now - sc_timestamp entry > src_ttl sc"
  shows "map_option snd (src_get numStr stringify inflate now sc opts) = Some (Inr (Some []))"
  using assms by (simp add: src_get_def Let_def maybeDecompress_def deepCopyResults_def)

text \<open>
  C3. The claim is that a cached entry flagged as compressed that cannot be decompressed
  and parsed back is a cache miss: \<open>get\<close> returns the absent value, as for a key that was
  never stored, and no error reaches the caller. The code does otherwise. With the entry
  in memory, one second old, under the key \<open>q:tea\<close>: when the decompression throws,
  \<open>get\<close> returns the empty result list, not the absent value it returns for the key
  \<open>q:coffee\<close> that was never stored; the same holds when the entry is only in the
  persistent store; and when the text decompresses and parses to a value that is no
  result list, \<open>get\<close> throws a TypeError.
\<close>

theorem C3_decompression_failure:
  "map_option snd
     (src_get decimal (\<lambda>u::unit. ''{}'') (\<lambda>t. Throws) 2000
        ((newSearchResultCache 50 30000 None)\<lparr> src_cache :=
           [(''q:tea'', \<lparr> sc_results = Blob ''eJy-damaged'', sc_timestamp = 1000,
                          isCompressed = True, originalSize = Some 200000 \<rparr>)] \<rparr>)
        (noOptions\<lparr> query := Some ''tea'' \<rparr>))
     = Some (Inr (Some []))
   \<and> map_option snd
     (src_get decimal (\<lambda>u::unit. ''{}'') (\<lambda>t. Throws) 2000
        ((newSearchResultCache 50 30000 None)\<lparr> src_cache :=
           [(''q:tea'', \<lparr> sc_results = Blob ''eJy-damaged'', sc_timestamp = 1000,
                          isCompressed = True, originalSize = Some 200000 \<rparr>)] \<rparr>)
        (noOptions\<lparr> query := Some ''coffee'' \<rparr>))
     = Some (Inr None)
   \<and> map_option snd
     (src_get decimal (\<lambda>u::unit. ''{}'') (\<lambda>t. Throws) 2000
        (newSearchResultCache 50 30000 (Some (Some
           [''q:tea'' \<mapsto> \<lparr> pc_data = \<lparr> sc_results = Blob ''eJy-damaged'', sc_timestamp = 1000,
                                          isCompressed = True, originalSize = Some 200000 \<rparr>,
                              pc_timestamp = 1000, pc_mtime = None \<rparr>])))
        (noOptions\<lparr> query := Some ''tea'' \<rparr>))
     = Some (Inr (Some []))
   \<and> map_option snd
     (src_get decimal (\<lambda>u::unit. ''{}'') (\<lambda>t. ParsedOther) 2000
        ((newSearchResultCache 50 30000 None)\<lparr> src_cache :=
           [(''q:tea'', \<lparr> sc_results = Blob ''eJy-damaged'', sc_timestamp = 1000,
                          isCompressed = True, originalSize = Some 200000 \<rparr>)] \<rparr>)
        (noOptions\<lparr> query := Some ''tea'' \<rparr>))
     = Some (Inl TypeError)"
proof -
  have k: "generateKey decimal (\<lambda>u::unit. ''{}'') (noOptions\<lparr> query := Some ''tea'' \<rparr>) = ''q:tea''"
    "generateKey decimal (\<lambda>u::unit. ''{}'') (noOptions\<lparr> query := Some ''coffee'' \<rparr>) = ''q:coffee''"
    by (simp_all add: generateKey_def noOptions_def)
  have e: "evictOldest 50 ([] :: (string \<times> SearchCacheEntry) list) = Some []"
    by (subst evictOldest.simps) simp
  show ?thesis
    by (simp add: src_get_def k e Let_def newSearchResultCache_def maybeDecompress_def
        deepCopyResults_def pc_getWithTtl_def setInMemory_def)
qed

section \<open>FileListCache: invalidating a folder\<close>

text \<open>
  What the loop does reach: after \<open>invalidate(f)\<close> the in-memory store holds no entry
  for the folder or for a folder related to it, and no key of the in-memory store that
  was the folder or related to it is left in the persistent store.
\<close>

lemma fold_invalidateStep:
  "map_of (fst (fold (invalidateStep nf) ks (c, p))) k
     = (if k \<in> set ks \<and> isRelatedFolder k nf then None else map_of c k)
   \<and> persisted (snd (fold (invalidateStep nf) ks (c, p))) k
     = (if k \<in> set ks \<and> isRelatedFolder k nf then False else persisted p k)"
proof (induction ks arbitrary: c p)
  case Nil
  show ?case by simp
next
  case (Cons a ks)
  have p: "persisted (opt_delete p a) k = (if k = a then False else persisted p k)"
    by (simp add: persisted_def opt_has_def opt_delete_def pc_has_def pc_delete_def
        split: option.splits)
  show ?case
  proof (cases "isRelatedFolder a nf")
    case True
    with Cons.IH [of "AList.delete a c" "opt_delete p a"] p show ?thesis
      by (auto simp add: invalidateStep_def delete_conv')
  next
    case False
    with Cons.IH [of c p] show ?thesis
      by (auto simp add: invalidateStep_def)
  qed
qed

lemma fl_invalidate_memory:
  assumes "k = normalizeFolder f \<or> isRelatedFolder k (normalizeFolder f)"
  shows "map_of (fl_cache (fl_invalidate fc (Some f))) k = None"
proof -
  let ?nf = "normalizeFolder f"
  let ?c1 = "AList.delete ?nf (fl_cache fc)"
  have "map_of ?c1 k = None \<or> k \<in> set (map fst ?c1)"
    by (simp add: map_of_eq_None_iff)
  moreover have "k = ?nf \<Longrightarrow> map_of ?c1 k = None" by (simp add: delete_conv')
  ultimately show ?thesis
    using assms fold_invalidateStep [of ?nf "map fst ?c1" ?c1 _ k]
    by (auto simp add: fl_invalidate_def Let_def)
qed

lemma fl_invalidate_persistent_of_memory:
  assumes "k = normalizeFolder f \<or> (map_of (fl_cache fc) k \<noteq> None \<and> isRelatedFolder k (normalizeFolder f))"
  shows "\<not> persisted (fl_persistentCache (fl_invalidate fc (Some f))) k"
proof -
  let ?nf = "normalizeFolder f"
  let ?c1 = "AList.delete ?nf (fl_cache fc)"
  let ?p1 = "opt_delete (fl_persistentCache fc) ?nf"
  have a: "\<not> persisted ?p1 ?nf"
    by (simp add: persisted_def opt_has_def opt_delete_def pc_has_def pc_delete_def
        split: option.splits)
  have b: "k \<in> set (map fst ?c1)" if "k \<noteq> ?nf" and "map_of (fl_cache fc) k \<noteq> None"
  proof -
    from that have "map_of ?c1 k \<noteq> None" by simp
    then show ?thesis by (simp add: map_of_eq_None_iff)
  qed
  from assms a b fold_invalidateStep [of ?nf "map fst ?c1" ?c1 ?p1 k]
  show ?thesis
    by (auto simp add: fl_invalidate_def Let_def)
qed

text \<open>
  C5. The claim is that \<open>invalidate(f)\<close> removes, from the in-memory cache and from the
  persistent store, the entry of \<open>f\<close> and every cached entry of an ancestor or a
  descendant of \<open>f\<close>, the root folder among them. The loop of the code goes over the
  keys of the in-memory store only. A new cache over a persistent store that already
  holds the listings of \<open>notes/sub\<close> and of the root (the state after a restart) has
  nothing in memory; \<open>invalidate('notes')\<close> then leaves both rows in the persistent
  store, and a later \<open>get('notes/sub')\<close> still returns the old listing. Had the two
  listings been in memory, both would have been removed from both stores.
\<close>

theorem C5_persisted_related_entries_survive:
  "persisted (fl_persistentCache (fl_invalidate
       (newFileListCache 60000 (Some (Some
          [''notes/sub'' \<mapsto> \<lparr> pc_data = \<lparr> files = [''notes/sub/x.md''], fl_timestamp = 1000 \<rparr>,
                                 pc_timestamp = 1000, pc_mtime = None \<rparr>,
           '''' \<mapsto> \<lparr> pc_data = \<lparr> files = [''notes/sub/x.md''], fl_timestamp = 1000 \<rparr>,
                        pc_timestamp = 1000, pc_mtime = None \<rparr>])))
       (Some ''notes''))) ''notes/sub''
   \<and> persisted (fl_persistentCache (fl_invalidate
       (newFileListCache 60000 (Some (Some
          [''notes/sub'' \<mapsto> \<lparr> pc_data = \<lparr> files = [''notes/sub/x.md''], fl_timestamp = 1000 \<rparr>,
                                 pc_timestamp = 1000, pc_mtime = None \<rparr>,
           '''' \<mapsto> \<lparr> pc_data = \<lparr> files = [''notes/sub/x.md''], fl_timestamp = 1000 \<rparr>,
                        pc_timestamp = 1000, pc_mtime = None \<rparr>])))
       (Some ''notes''))) ''''
   \<and> isRelatedFolder ''notes/sub'' (normalizeFolder ''notes'')
   \<and> isRelatedFolder '''' (normalizeFolder ''notes'')
   \<and> snd (fl_get 2000 (fl_invalidate
       (newFileListCache 60000 (Some (Some
          [''notes/sub'' \<mapsto> \<lparr> pc_data = \<lparr> files = [''notes/sub/x.md''], fl_timestamp = 1000 \<rparr>,
                                 pc_timestamp = 1000, pc_mtime = None \<rparr>,
           '''' \<mapsto> \<lparr> pc_data = \<lparr> files = [''notes/sub/x.md''], fl_timestamp = 1000 \<rparr>,
                        pc_timestamp = 1000, pc_mtime = None \<rparr>])))
       (Some ''notes'')) ''notes/sub'') = Some [''notes/sub/x.md'']
   \<and> fl_persistentCache (fl_invalidate
       (fl_set 1000 (fl_set 1000 (newFileListCache 60000 (Some (Some Map.empty)))
          ''notes/sub'' [''notes/sub/x.md'']) '''' [''notes/sub/x.md''])
       (Some ''notes'')) = Some (Some Map.empty)"
proof -
  have n: "normalizeFolder ''notes'' = ''notes''" "normalizeFolder ''notes/sub'' = ''notes/sub''"
    "normalizeFolder '''' = ''''"
    by (simp_all add: normalizeFolder_def normalizePath_def toLowerCase_def lower_char_def upperLatin_def lowerLatin_def)
  have r: "isRelatedFolder ''notes/sub'' ''notes''" "isRelatedFolder '''' ''notes''"
    by (simp_all add: isRelatedFolder_def startsWith_def)
  show ?thesis
    by (simp add: n r fl_invalidate_def fl_get_def fl_set_def newFileListCache_def Let_def
        persisted_def opt_has_def opt_delete_def opt_set_def pc_has_def pc_delete_def pc_set_def
        pc_getWithTtl_def invalidateStep_def fun_upd_twist)
qed

section \<open>InvertedIndex: the two maps are inverse to each other\<close>

lemma removeFile_apply:
  "removeFile p a m w =
     (if w = a
      then (case m a of None \<Rightarrow> None | Some fs \<Rightarrow> if fs - {p} = {} then None else Some (fs - {p}))
      else m w)"
  by (simp add: removeFile_def split: option.splits)

lemma addFile_apply:
  "addFile p a m w =
     (if w = a then Some (insert p (case m a of None \<Rightarrow> {} | Some fs \<Rightarrow> fs)) else m w)"
  by (simp add: addFile_def split: option.splits)

lemma fold_removeFile:
  "fold (removeFile p) ws m w =
     (if w \<in> set ws
      then (case m w of None \<Rightarrow> None | Some fs \<Rightarrow> if fs - {p} = {} then None else Some (fs - {p}))
      else m w)"
proof (induction ws arbitrary: m)
  case Nil
  show ?case by simp
next
  case (Cons a ws)
  have "fold (removeFile p) (a # ws) m w = fold (removeFile p) ws (removeFile p a m) w"
    by simp
  also have "\<dots> = (if w \<in> set ws
      then (case removeFile p a m w of None \<Rightarrow> None
            | Some fs \<Rightarrow> if fs - {p} = {} then None else Some (fs - {p}))
      else removeFile p a m w)"
    by (rule Cons.IH)
  also have "\<dots> = (if w \<in> set (a # ws)
      then (case m w of None \<Rightarrow> None | Some fs \<Rightarrow> if fs - {p} = {} then None else Some (fs - {p}))
      else m w)"
    by (simp add: removeFile_apply split: option.splits)
  finally show ?case .
qed

lemma fold_addFile:
  "fold (addFile p) ws m w =
     (if w \<in> set ws
      then Some (insert p (case m w of None \<Rightarrow> {} | Some fs \<Rightarrow> fs))
      else m w)"
proof (induction ws arbitrary: m)
  case Nil
  show ?case by simp
next
  case (Cons a ws)
  have "fold (addFile p) (a # ws) m w = fold (addFile p) ws (addFile p a m) w"
    by simp
  also have "\<dots> = (if w \<in> set ws
      then Some (insert p (case addFile p a m w of None \<Rightarrow> {} | Some fs \<Rightarrow> fs))
      else addFile p a m w)"
    by (rule Cons.IH)
  also have "\<dots> = (if w \<in> set (a # ws)
      then Some (insert p (case m w of None \<Rightarrow> {} | Some fs \<Rightarrow> fs))
      else m w)"
    by (simp add: addFile_apply split: option.splits)
  finally show ?case .
qed

lemma fileOfWord_invalidate:
  assumes "fileToWords ii (normalizePath f) = Some ws"
  shows "fileOfWord (ii_invalidate ii f) w p
       = (fileOfWord ii w p \<and> \<not> (p = normalizePath f \<and> w \<in> set ws))"
  using assms
  by (auto simp add: fileOfWord_def ii_invalidate_def Let_def fold_removeFile split: option.splits)

lemma wordOfFile_invalidate:
  "wordOfFile (ii_invalidate ii f) p w = (wordOfFile ii p w \<and> p \<noteq> normalizePath f)"
  by (auto simp add: wordOfFile_def ii_invalidate_def Let_def split: option.splits)

lemma mutualInverse_invalidate:
  assumes "mutualInverse ii"
  shows "mutualInverse (ii_invalidate ii f)"
proof (cases "fileToWords ii (normalizePath f)")
  case None
  then show ?thesis using assms by (simp add: ii_invalidate_def)
next
  case (Some ws)
  have "wordOfFile ii (normalizePath f) w = (w \<in> set ws)" for w
    using Some by (simp add: wordOfFile_def)
  with assms have "fileOfWord ii w (normalizePath f) = (w \<in> set ws)" for w
    by (simp add: mutualInverse_def)
  with assms show ?thesis
    unfolding mutualInverse_def fileOfWord_invalidate [OF Some] wordOfFile_invalidate
    by auto
qed

lemma invalidate_forgets:
  assumes "mutualInverse ii"
  shows "\<not> wordOfFile (ii_invalidate ii f) (normalizePath f) w"
    and "\<not> fileOfWord (ii_invalidate ii f) w (normalizePath f)"
proof -
  show a: "\<not> wordOfFile (ii_invalidate ii f) (normalizePath f) w"
    by (simp add: wordOfFile_invalidate)
  from mutualInverse_invalidate [OF assms] a
  show "\<not> fileOfWord (ii_invalidate ii f) w (normalizePath f)"
    by (simp add: mutualInverse_def)
qed

lemma ii_invalidate_keeps: "enabled (ii_invalidate ii f) = enabled ii"
  "ii_options (ii_invalidate ii f) = ii_options ii"
  by (simp_all add: ii_invalidate_def Let_def split: option.splits)

lemma fileOfWord_index:
  assumes "enabled ii" and "c \<noteq> []"
  shows "fileOfWord (indexContent ii f c) w p
       = (fileOfWord (ii_invalidate ii f) w p
          \<or> (p = normalizePath f \<and> w \<in> set (extractWords (ii_options ii) c)))"
  using assms
  by (auto simp add: fileOfWord_def indexContent_def Let_def fold_addFile ii_invalidate_keeps
      split: option.splits)

lemma wordOfFile_index:
  assumes "enabled ii" and "c \<noteq> []"
  shows "wordOfFile (indexContent ii f c) p w
       = (if p = normalizePath f then w \<in> set (extractWords (ii_options ii) c)
          else wordOfFile (ii_invalidate ii f) p w)"
  using assms
  by (auto simp add: wordOfFile_def indexContent_def Let_def ii_invalidate_keeps split: option.splits)

lemma mutualInverse_index:
  assumes "mutualInverse ii"
  shows "mutualInverse (indexContent ii f c)"
proof (cases "enabled ii \<and> c \<noteq> []")
  case False
  then show ?thesis using assms by (auto simp add: indexContent_def)
next
  case True
  then have e: "enabled ii" and c: "c \<noteq> []" by simp_all
  from mutualInverse_invalidate [OF assms] invalidate_forgets [OF assms]
  show ?thesis
    unfolding mutualInverse_def fileOfWord_index [OF e c] wordOfFile_index [OF e c]
    by auto
qed

lemma reachable_mutualInverse: "ii_reachable opts ii \<Longrightarrow> mutualInverse ii"
proof (induction rule: ii_reachable.induct)
  case ii_new
  show ?case by (simp add: mutualInverse_def wordOfFile_def fileOfWord_def newInvertedIndex_def)
next
  case (ii_index ii fpath c)
  then show ?case by (simp add: mutualInverse_index)
next
  case (ii_inval ii fpath)
  then show ?case by (simp add: mutualInverse_invalidate)
next
  case (ii_enable ii b)
  then show ?case
    by (simp add: setEnabled_def ii_clear_def Let_def mutualInverse_def wordOfFile_def fileOfWord_def)
next
  case (ii_clear ii)
  show ?case by (simp add: ii_clear_def mutualInverse_def wordOfFile_def fileOfWord_def)
qed

text \<open>
  C6. In every state that the index reaches from the empty index by \<open>indexContent\<close>,
  \<open>invalidate\<close>, \<open>setEnabled\<close> and \<open>clear\<close>, a word \<open>w\<close> is among \<open>fileToWords[p]\<close>
  exactly when the path \<open>p\<close> is among \<open>wordToFiles[w]\<close>.
\<close>

theorem C6_mutual_inverse:
  assumes "ii_reachable opts ii"
  shows "wordOfFile ii p w = fileOfWord ii w p"
  using reachable_mutualInverse [OF assms] by (simp add: mutualInverse_def)

lemma example_words:
  "extractWords DEFAULT_INDEX_OPTIONS ''Hello world'' = [''hello'', ''world'']"
  "extractWords DEFAULT_INDEX_OPTIONS ''world only'' = [''world'']"
  "extractWords DEFAULT_INDEX_OPTIONS [] = []"
  by (simp_all add: extractWords_def DEFAULT_INDEX_OPTIONS_def DEFAULT_STOP_WORDS_def
      toLowerCase_def lower_char_def upperLatin_def lowerLatin_def isWordChar_def)

theorem C6_mutual_inverse_witness:
  "ii_reachable DEFAULT_INDEX_OPTIONS
     (indexContent (indexContent (newInvertedIndex DEFAULT_INDEX_OPTIONS) ''a.md'' ''Hello world'')
        ''b.md'' ''world only'')
   \<and> wordOfFile
     (indexContent (indexContent (newInvertedIndex DEFAULT_INDEX_OPTIONS) ''a.md'' ''Hello world'')
        ''b.md'' ''world only'') ''b.md'' ''world''
   \<and> fileOfWord
     (indexContent (indexContent (newInvertedIndex DEFAULT_INDEX_OPTIONS) ''a.md'' ''Hello world'')
        ''b.md'' ''world only'') ''world'' ''b.md''"
proof -
  let ?s = "indexContent (indexContent (newInvertedIndex DEFAULT_INDEX_OPTIONS) ''a.md'' ''Hello world'')
        ''b.md'' ''world only''"
  have r: "ii_reachable DEFAULT_INDEX_OPTIONS ?s"
    by (intro ii_index ii_new)
  have "fileToWords ?s ''b.md'' = Some [''world'']"
    by (simp add: indexContent_def Let_def ii_invalidate_def newInvertedIndex_def normalizePath_def
        example_words)
  then have w: "wordOfFile ?s ''b.md'' ''world''"
    by (simp add: wordOfFile_def)
  with C6_mutual_inverse [OF r, of "''b.md''" "''world''"] r show ?thesis by simp
qed

section \<open>InvertedIndex: indexing a file again\<close>

lemma indexContent_idem: "indexContent (indexContent ii f c) f c = indexContent ii f c"
proof (cases "enabled ii \<and> c \<noteq> []")
  case False
  then show ?thesis by (auto simp add: indexContent_def)
next
  case True
  let ?p = "normalizePath f"
  let ?ii1 = "ii_invalidate ii f"
  let ?ws = "extractWords (ii_options ii) c"
  let ?i = "indexContent ii f c"
  have i: "?i = ?ii1\<lparr> fileToWords := (fileToWords ?ii1)(?p \<mapsto> ?ws),
                         wordToFiles := fold (addFile ?p) ?ws (wordToFiles ?ii1) \<rparr>"
    using True by (simp add: indexContent_def Let_def ii_invalidate_keeps)
  have en: "enabled ?i" "ii_options ?i = ii_options ii"
    using True by (simp_all add: i ii_invalidate_keeps)
  have inv: "ii_invalidate ?i f = ?i\<lparr> wordToFiles := fold (removeFile ?p) ?ws (wordToFiles ?i),
                                       fileToWords := (fileToWords ?i)(?p := None) \<rparr>"
    by (simp add: ii_invalidate_def Let_def i)
  have w: "fold (addFile ?p) ?ws (fold (removeFile ?p) ?ws (wordToFiles ?i)) = wordToFiles ?i"
  proof
    fix w
    show "fold (addFile ?p) ?ws (fold (removeFile ?p) ?ws (wordToFiles ?i)) w = wordToFiles ?i w"
      by (auto simp add: i fold_addFile fold_removeFile split: option.splits)
  qed
  have "indexContent ?i f c
      = (ii_invalidate ?i f)\<lparr> fileToWords := (fileToWords (ii_invalidate ?i f))(?p \<mapsto> ?ws),
           wordToFiles := fold (addFile ?p) ?ws (wordToFiles (ii_invalidate ?i f)) \<rparr>"
    using True en by (simp add: indexContent_def [of ?i] Let_def ii_invalidate_keeps)
  also have "\<dots> = ?i"
    unfolding inv using w by (simp add: i)
  finally show ?thesis .
qed

lemma index_empty_content: "indexContent ii f [] = ii"
  by (simp add: indexContent_def)

lemma index_result:
  assumes "mutualInverse ii" and "enabled ii" and "c \<noteq> []"
  shows "fileToWords (indexContent ii f c) (normalizePath f) = Some (extractWords (ii_options ii) c)"
    and "fileOfWord (indexContent ii f c) w (normalizePath f) = (w \<in> set (extractWords (ii_options ii) c))"
    and "p \<noteq> normalizePath f \<Longrightarrow> fileOfWord (indexContent ii f c) w p = fileOfWord ii w p"
proof -
  show "fileToWords (indexContent ii f c) (normalizePath f) = Some (extractWords (ii_options ii) c)"
    using assms(2,3) by (simp add: indexContent_def Let_def ii_invalidate_keeps)
  show "fileOfWord (indexContent ii f c) w (normalizePath f) = (w \<in> set (extractWords (ii_options ii) c))"
    using invalidate_forgets(2) [OF assms(1)] by (simp add: fileOfWord_index [OF assms(2,3)])
  show "fileOfWord (indexContent ii f c) w p = fileOfWord ii w p" if "p \<noteq> normalizePath f"
  proof (cases "fileToWords ii (normalizePath f)")
    case None
    then have "ii_invalidate ii f = ii" by (simp add: ii_invalidate_def)
    with that show ?thesis by (simp add: fileOfWord_index [OF assms(2,3)])
  next
    case (Some ws)
    with that show ?thesis
      by (simp add: fileOfWord_index [OF assms(2,3)] fileOfWord_invalidate [OF Some])
  qed
qed

text \<open>
  C7, as amended. Calling \<open>indexContent(p, c)\<close> twice in a row leaves the same two maps
  as calling it once. With empty content the call does nothing. With non-empty content,
  on an enabled index in a state it can reach, the call leaves for \<open>p\<close> exactly the
  mappings of \<open>c\<close>: \<open>fileToWords[p]\<close> is the word set of \<open>c\<close>, the path \<open>p\<close> is among
  \<open>wordToFiles[w]\<close> exactly for the words \<open>w\<close> of \<open>c\<close>, and the mappings of every other
  path are as they were.
\<close>

theorem C7_reindexing:
  "indexContent (indexContent ii f c) f c = indexContent ii f c
   \<and> (c = [] \<longrightarrow> indexContent ii f c = ii)
   \<and> (ii_reachable opts ii \<and> enabled ii \<and> c \<noteq> []
       \<longrightarrow> fileToWords (indexContent ii f c) (normalizePath f) = Some (extractWords (ii_options ii) c)
         \<and> (\<forall>w. fileOfWord (indexContent ii f c) w (normalizePath f)
                  = (w \<in> set (extractWords (ii_options ii) c)))
         \<and> (\<forall>w p. p = normalizePath f \<or> fileOfWord (indexContent ii f c) w p = fileOfWord ii w p))"
proof (intro conjI impI)
  show "indexContent (indexContent ii f c) f c = indexContent ii f c"
    by (rule indexContent_idem)
next
  assume "c = []"
  then show "indexContent ii f c = ii" by (simp add: index_empty_content)
next
  assume a: "ii_reachable opts ii \<and> enabled ii \<and> c \<noteq> []"
  then have m: "mutualInverse ii" by (blast intro: reachable_mutualInverse)
  from a have e: "enabled ii" and c: "c \<noteq> []" by simp_all
  from index_result [OF m e c]
  show "fileToWords (indexContent ii f c) (normalizePath f) = Some (extractWords (ii_options ii) c)"
    and "\<forall>w. fileOfWord (indexContent ii f c) w (normalizePath f)
                  = (w \<in> set (extractWords (ii_options ii) c))"
    and "\<forall>w p. p = normalizePath f \<or> fileOfWord (indexContent ii f c) w p = fileOfWord ii w p"
    by auto
qed

theorem C7_reindexing_witness:
  "ii_reachable DEFAULT_INDEX_OPTIONS (indexContent (newInvertedIndex DEFAULT_INDEX_OPTIONS) ''a.md'' ''Hello world'')
   \<and> enabled (indexContent (newInvertedIndex DEFAULT_INDEX_OPTIONS) ''a.md'' ''Hello world'')
   \<and> fileToWords
       (indexContent (indexContent (newInvertedIndex DEFAULT_INDEX_OPTIONS) ''a.md'' ''Hello world'')
          ''a.md'' ''world only'') ''a.md'' = Some [''world'']
   \<and> \<not> fileOfWord
       (indexContent (indexContent (newInvertedIndex DEFAULT_INDEX_OPTIONS) ''a.md'' ''Hello world'')
          ''a.md'' ''world only'') ''hello'' ''a.md''
   \<and> indexContent (newInvertedIndex DEFAULT_INDEX_OPTIONS) ''a.md'' [] = newInvertedIndex DEFAULT_INDEX_OPTIONS"
proof -
  let ?s = "indexContent (newInvertedIndex DEFAULT_INDEX_OPTIONS) ''a.md'' ''Hello world''"
  have r: "ii_reachable DEFAULT_INDEX_OPTIONS ?s"
    by (intro ii_index ii_new)
  have e: "enabled ?s" "ii_options ?s = DEFAULT_INDEX_OPTIONS"
    by (simp_all add: indexContent_def Let_def ii_invalidate_keeps newInvertedIndex_def)
  have n: "normalizePath ''a.md'' = ''a.md''"
    by (simp add: normalizePath_def)
  have c: "''world only'' \<noteq> []" by simp
  note t = C7_reindexing [of ?s "''a.md''" "''world only''" DEFAULT_INDEX_OPTIONS]
  from t r e c have 1: "fileToWords (indexContent ?s ''a.md'' ''world only'') (normalizePath ''a.md'')
      = Some (extractWords DEFAULT_INDEX_OPTIONS ''world only'')"
    by simp
  from t r e c have "fileOfWord (indexContent ?s ''a.md'' ''world only'') ''hello'' (normalizePath ''a.md'')
      = (''hello'' \<in> set (extractWords DEFAULT_INDEX_OPTIONS ''world only''))"
    by simp
  then have 2: "\<not> fileOfWord (indexContent ?s ''a.md'' ''world only'') ''hello'' ''a.md''"
    by (simp add: n example_words)
  from C7_reindexing [of "newInvertedIndex DEFAULT_INDEX_OPTIONS" "''a.md''" "[]" DEFAULT_INDEX_OPTIONS]
  have 3: "indexContent (newInvertedIndex DEFAULT_INDEX_OPTIONS) ''a.md'' [] = newInvertedIndex DEFAULT_INDEX_OPTIONS"
    by simp
  from r e(1) 1 2 3 show ?thesis by (simp add: n example_words)
qed

text \<open>
  The claim as stated speaks of every content. When the new content is the empty string
  (the file was emptied), \<open>indexContent\<close> returns before it invalidates: the mappings
  of the previous content stay, although the new content has no word.
\<close>

theorem C7_counterexample:
  "fileOfWord
     (indexContent (indexContent (newInvertedIndex DEFAULT_INDEX_OPTIONS) ''a.md'' ''Hello world'')
        ''a.md'' []) ''hello'' ''a.md''
   \<and> fileToWords
     (indexContent (indexContent (newInvertedIndex DEFAULT_INDEX_OPTIONS) ''a.md'' ''Hello world'')
        ''a.md'' []) ''a.md'' = Some [''hello'', ''world'']
   \<and> extractWords DEFAULT_INDEX_OPTIONS [] = []"
  by (simp add: indexContent_def Let_def ii_invalidate_def newInvertedIndex_def normalizePath_def
      example_words fileOfWord_def addFile_def)

text \<open>On a disabled index \<open>indexContent\<close> returns at once as well.\<close>

lemma indexContent_disabled: "\<not> enabled ii \<Longrightarrow> indexContent ii p c = ii"
  by (simp add: indexContent_def)

section \<open>SearchScorer: the score and its formula\<close>





















section \<open>PathTrie: the trie and the file set agree\<close>

inductive_simps wellKeyed_node: "wellKeyed (TrieNode ch fs d)"

lemma wellKeyed_children: "wellKeyed n \<Longrightarrow> distinct (map fst (children n))"
  by (cases n) (simp add: wellKeyed_node)

lemma wellKeyed_child: "wellKeyed n \<Longrightarrow> map_of (children n) k = Some ch \<Longrightarrow> wellKeyed ch"
  by (cases n) (auto simp add: wellKeyed_node dest: map_of_SomeD)

lemma wellKeyed_member: "wellKeyed n \<Longrightarrow> (k, ch) \<in> set (children n) \<Longrightarrow> wellKeyed ch"
  by (cases n) (auto simp add: wellKeyed_node)

lemma wellKeyed_createNode: "wellKeyed createNode"
  by (simp add: createNode_def wellKeyed_node)

lemma set_update_subset: "set (AList.update k v al) \<subseteq> insert (k, v) (set al)"
  by (induction al) auto

lemma set_delete_subset: "set (AList.delete k al) \<subseteq> set al"
  by (auto simp add: AList.delete_eq)

lemma wellKeyed_update:
  assumes "wellKeyed n" and "wellKeyed ch"
  shows "wellKeyed (TrieNode (AList.update k ch (children n)) fs d)"
proof -
  have "wellKeyed m" if "(k', m) \<in> set (AList.update k ch (children n))" for k' m
  proof -
    from that set_update_subset [of k ch "children n"]
    have "(k', m) = (k, ch) \<or> (k', m) \<in> set (children n)" by auto
    with assms show ?thesis by (auto dest: wellKeyed_member)
  qed
  with assms(1) show ?thesis
    by (auto simp add: wellKeyed_node distinct_update wellKeyed_children)
qed

lemma wellKeyed_delete:
  assumes "wellKeyed n"
  shows "wellKeyed (TrieNode (AList.delete k (children n)) fs d)"
proof -
  have "wellKeyed m" if "(k', m) \<in> set (AList.delete k (children n))" for k' m
    using that set_delete_subset [of k "children n"] assms by (auto dest: wellKeyed_member)
  with assms show ?thesis
    by (auto simp add: wellKeyed_node distinct_delete wellKeyed_children)
qed

lemma wellKeyed_files: "wellKeyed n \<Longrightarrow> wellKeyed (TrieNode (children n) fs d)"
  by (cases n) (simp add: wellKeyed_node)

lemma wellKeyed_childOrNew: "wellKeyed n \<Longrightarrow> wellKeyed (childOrNew n k)"
  by (auto simp add: childOrNew_def wellKeyed_createNode split: option.splits dest: wellKeyed_child)

lemma stored_createNode: "\<not> storedAt createNode p f"
  by (cases p) (simp_all add: createNode_def)

lemma stored_same_children:
  "storedAt (TrieNode (children n) fs d) p f = (if p = [] then f \<in> set fs else storedAt n p f)"
  by (cases p) simp_all

lemma stored_childOrNew:
  "storedAt (childOrNew n k) p f = storedAt n (k # p) f"
  by (simp add: childOrNew_def stored_createNode split: option.splits)

lemma stored_Cons:
  "storedAt n (s # rest) f = storedAt (childOrNew n s) rest f"
  by (simp add: childOrNew_def stored_createNode split: option.splits)

lemma stored_Nil: "storedAt n [] f = (f \<in> set (node_files n))"
  by (cases n) simp

lemma childOrNew_update:
  "childOrNew (TrieNode (AList.update k ch al) fs d) s
     = (if s = k then ch else childOrNew (TrieNode al fs d) s)"
  by (simp add: childOrNew_def update_conv')

lemma childOrNew_delete:
  "childOrNew (TrieNode (AList.delete k al) fs d) s
     = (if s = k then createNode else childOrNew (TrieNode al fs d) s)"
  by (simp add: childOrNew_def delete_conv')

lemma childOrNew_same_children:
  "childOrNew (TrieNode (children n) fs d) s = childOrNew n s"
  by (simp add: childOrNew_def)

lemma stored_insertAt:
  "storedAt (insertAt segs fn np n) p f
     = (storedAt n p f \<or> (fn \<noteq> [] \<and> p = filter (\<lambda>s. s \<noteq> []) segs @ [fn] \<and> f = np))"
proof (induction segs arbitrary: n p)
  case Nil
  show ?case
  proof (cases "fn = []")
    case True
    then show ?thesis by simp
  next
    case False
    then show ?thesis
      by (cases p)
         (auto simp add: Let_def stored_Nil stored_Cons childOrNew_update childOrNew_same_children
            stored_same_children setAdd_def simp del: storedAt.simps)
  qed
next
  case (Cons seg segs)
  show ?case
  proof (cases "seg = []")
    case True
    then show ?thesis by (simp add: Cons.IH)
  next
    case False
    then show ?thesis
      by (cases p)
         (auto simp add: Let_def stored_Nil stored_Cons childOrNew_update childOrNew_same_children
            stored_same_children Cons.IH simp del: storedAt.simps)
  qed
qed

lemma wellKeyed_insertAt: "wellKeyed n \<Longrightarrow> wellKeyed (insertAt segs fn np n)"
proof (induction segs arbitrary: n)
  case Nil
  then show ?case
    by (auto simp add: Let_def intro!: wellKeyed_update wellKeyed_files wellKeyed_childOrNew)
next
  case (Cons seg segs)
  then show ?case
    by (auto simp add: Let_def intro!: wellKeyed_update wellKeyed_files wellKeyed_childOrNew)
qed

lemma stored_modifyAt:
  assumes "\<And>m p f. storedAt (g m) p f = (storedAt m p f \<and> \<not> bad p f)"
  shows "storedAt (modifyAt q g n) p f
       = (storedAt n p f \<and> \<not> (prefix q p \<and> bad (drop (length q) p) f))"
proof (induction q arbitrary: n p)
  case Nil
  show ?case by (simp add: assms)
next
  case (Cons s q)
  show ?case
  proof (cases "map_of (children n) s")
    case None
    then show ?thesis by (cases p) auto
  next
    case (Some ch)
    then have c: "childOrNew n s = ch" by (simp add: childOrNew_def)
    from Some show ?thesis
      by (cases p)
         (auto simp add: stored_Nil stored_Cons childOrNew_update childOrNew_same_children c
            Cons.IH simp del: storedAt.simps)
  qed
qed

lemma wellKeyed_modifyAt:
  assumes "\<And>m. wellKeyed m \<Longrightarrow> wellKeyed (g m)"
  shows "wellKeyed n \<Longrightarrow> wellKeyed (modifyAt q g n)"
proof (induction q arbitrary: n)
  case Nil
  then show ?case by (simp add: assms)
next
  case (Cons s q)
  then show ?case
    by (auto split: option.splits intro!: wellKeyed_update dest: wellKeyed_child)
qed

lemma stored_deleteFile:
  "storedAt (deleteFile np m) p f = (storedAt m p f \<and> \<not> (p = [] \<and> f = np))"
  by (auto simp add: deleteFile_def stored_same_children)

lemma wellKeyed_deleteFile: "wellKeyed m \<Longrightarrow> wellKeyed (deleteFile np m)"
  by (simp add: deleteFile_def wellKeyed_files)

lemma stored_empty_node: "children ch = [] \<Longrightarrow> node_files ch = [] \<Longrightarrow> \<not> storedAt ch p f"
  by (cases p) simp_all

lemma stored_pruneChild: "storedAt (pruneChild s m) p f = (storedAt m p f \<and> \<not> False)"
proof (cases "map_of (children m) s")
  case None
  then show ?thesis by (simp add: pruneChild_def)
next
  case (Some ch)
  then have c: "childOrNew m s = ch" by (simp add: childOrNew_def)
  show ?thesis
  proof (cases "children ch = [] \<and> node_files ch = []")
    case False
    with Some show ?thesis by (auto simp add: pruneChild_def)
  next
    case True
    with Some c show ?thesis
      by (cases p)
         (auto simp add: pruneChild_def stored_Nil stored_Cons childOrNew_delete
            childOrNew_same_children stored_empty_node stored_createNode simp del: storedAt.simps)
  qed
qed

lemma wellKeyed_pruneChild: "wellKeyed m \<Longrightarrow> wellKeyed (pruneChild s m)"
  by (auto simp add: pruneChild_def wellKeyed_delete split: option.splits)

lemma cleanupFrom_keeps:
  "storedAt (fst (cleanupFrom segs ne i r)) p f = storedAt r p f
   \<and> (wellKeyed r \<longrightarrow> wellKeyed (fst (cleanupFrom segs ne i r)))"
proof (induction i arbitrary: r)
  case 0
  show ?case by simp
next
  case (Suc i)
  let ?r = "modifyAt (take i ne) (pruneChild (segs ! i)) r"
  have s: "storedAt ?r p f = storedAt r p f"
    using stored_modifyAt [of "pruneChild (segs ! i)" "\<lambda>p f. False"]
    by (simp add: stored_pruneChild)
  have w: "wellKeyed r \<Longrightarrow> wellKeyed ?r"
    by (intro wellKeyed_modifyAt wellKeyed_pruneChild)
  from Suc.IH [of r] Suc.IH [of ?r] s w show ?case by auto
qed

lemma split_on_nonempty: "split_on c s \<noteq> []"
  by (induction s) (auto split: list.splits)

lemma nodePathOf_split:
  "fileNameOf f \<noteq> [] \<Longrightarrow>
   nodePathOf f = filter (\<lambda>s. s \<noteq> []) (butlast (split_on CHR ''/'' f)) @ [fileNameOf f]"
proof -
  assume a: "fileNameOf f \<noteq> []"
  have "split_on CHR ''/'' f = butlast (split_on CHR ''/'' f) @ [last (split_on CHR ''/'' f)]"
    by (simp add: split_on_nonempty)
  then have "nodePathOf f = filter (\<lambda>s. s \<noteq> [])
      (butlast (split_on CHR ''/'' f) @ [last (split_on CHR ''/'' f)])"
    by (simp add: nodePathOf_def)
  with a show ?thesis by (simp add: fileNameOf_def)
qed

lemma trieInv_insert:
  assumes "trieInv t"
  shows "trieInv (pt_insert t fpath)"
proof (cases "fpath = [] \<or> normalizePath fpath \<in> set (pt_allFiles t)")
  case True
  with assms show ?thesis by (auto simp add: pt_insert_def Let_def)
next
  case False
  let ?np = "normalizePath fpath"
  let ?segs = "split_on CHR ''/'' ?np"
  let ?r = "insertAt (butlast ?segs) (last ?segs) ?np (pt_root t)"
  from False have e: "pt_insert t fpath = t\<lparr> pt_allFiles := pt_allFiles t @ [?np],
      pt_fileCount := pt_fileCount t + 1, pt_root := ?r \<rparr>"
    by (simp add: pt_insert_def Let_def)
  from assms have w: "wellKeyed ?r" by (simp add: trieInv_def wellKeyed_insertAt)
  have "storedAt ?r p f = (f \<in> set (pt_allFiles t @ [?np]) \<and> fileNameOf f \<noteq> [] \<and> p = nodePathOf f)"
    for p f
  proof -
    have "storedAt ?r p f = (storedAt (pt_root t) p f
        \<or> (fileNameOf ?np \<noteq> [] \<and> p = filter (\<lambda>s. s \<noteq> []) (butlast ?segs) @ [fileNameOf ?np] \<and> f = ?np))"
      by (simp add: stored_insertAt fileNameOf_def)
    also have "\<dots> = (storedAt (pt_root t) p f \<or> (fileNameOf ?np \<noteq> [] \<and> p = nodePathOf ?np \<and> f = ?np))"
      using nodePathOf_split [of ?np] by auto
    finally show ?thesis using assms by (auto simp add: trieInv_def)
  qed
  with w show ?thesis by (simp add: e trieInv_def)
qed

lemma nodeAt_stored:
  "storedAt n (q @ p) f = (case nodeAt n q of None \<Rightarrow> False | Some m \<Rightarrow> storedAt m p f)"
  by (induction q arbitrary: n) (auto split: option.splits)

lemma nodeAt_wellKeyed: "wellKeyed n \<Longrightarrow> nodeAt n q = Some m \<Longrightarrow> wellKeyed m"
  by (induction q arbitrary: n) (auto split: option.splits dest: wellKeyed_child)

lemma trieInv_remove:
  assumes "trieInv t"
  shows "trieInv (fst (pt_remove t fpath))"
proof (cases "normalizePath fpath \<in> set (pt_allFiles t)")
  case False
  with assms show ?thesis by (simp add: pt_remove_def Let_def)
next
  case True
  let ?np = "normalizePath fpath"
  let ?segs = "split_on CHR ''/'' ?np"
  let ?ne = "filter (\<lambda>s. s \<noteq> []) ?segs"
  let ?t1 = "t\<lparr> pt_allFiles := removeAll ?np (pt_allFiles t), pt_fileCount := pt_fileCount t - 1 \<rparr>"
  have ne: "?ne = nodePathOf ?np" by (simp add: nodePathOf_def)
  from assms have i: "\<And>p f. storedAt (pt_root t) p f
      = (f \<in> set (pt_allFiles t) \<and> fileNameOf f \<noteq> [] \<and> p = nodePathOf f)"
    and w: "wellKeyed (pt_root t)"
    by (simp_all add: trieInv_def)
  show ?thesis
  proof (cases "nodeAt (pt_root t) ?ne")
    case None
    have n: "\<not> storedAt (pt_root t) p ?np" for p
    proof
      assume s: "storedAt (pt_root t) p ?np"
      with i have "p = ?ne @ []" by (simp add: ne)
      with s have "storedAt (pt_root t) (?ne @ []) ?np" by simp
      with None show False by (simp only: nodeAt_stored option.case)
    qed
    from True None have e: "fst (pt_remove t fpath) = ?t1"
      by (simp add: pt_remove_def Let_def)
    have "storedAt (pt_root t) p f
        = (f \<in> set (removeAll ?np (pt_allFiles t)) \<and> fileNameOf f \<noteq> [] \<and> p = nodePathOf f)"
      for p f
      using i [of p f] n [of p] by auto
    with w show ?thesis by (simp add: e trieInv_def)
  next
    case (Some node)
    let ?r1 = "modifyAt ?ne (deleteFile ?np) (pt_root t)"
    let ?r2 = "fst (cleanupFrom ?segs ?ne (length ?segs) ?r1)"
    from True Some have e: "fst (pt_remove t fpath) = ?t1\<lparr> pt_root := ?r2 \<rparr>"
      by (simp add: pt_remove_def Let_def split_def)
    have w1: "wellKeyed ?r1"
      using w by (intro wellKeyed_modifyAt wellKeyed_deleteFile)
    with cleanupFrom_keeps [of ?segs ?ne "length ?segs" ?r1] have w2: "wellKeyed ?r2" by simp
    have s1: "storedAt ?r1 p f = (storedAt (pt_root t) p f \<and> \<not> (p = ?ne \<and> f = ?np))" for p f
    proof -
      have "storedAt ?r1 p f
          = (storedAt (pt_root t) p f
             \<and> \<not> (prefix ?ne p \<and> (drop (length ?ne) p = [] \<and> f = ?np)))"
        by (rule stored_modifyAt [of "deleteFile ?np" "\<lambda>p f. p = [] \<and> f = ?np"])
           (rule stored_deleteFile)
      moreover have "(prefix ?ne p \<and> (drop (length ?ne) p = [] \<and> f = ?np))
          = (p = ?ne \<and> f = ?np)"
        by (auto simp add: prefix_def)
      ultimately show ?thesis by (simp only:)
    qed
    have "storedAt ?r2 p f
        = (f \<in> set (removeAll ?np (pt_allFiles t)) \<and> fileNameOf f \<noteq> [] \<and> p = nodePathOf f)"
      for p f
    proof -
      from cleanupFrom_keeps [of ?segs ?ne "length ?segs" ?r1 p f]
      have "storedAt ?r2 p f = storedAt ?r1 p f" by simp
      with s1 [of p f] i [of p f] ne show ?thesis by auto
    qed
    with w2 show ?thesis by (simp add: e trieInv_def)
  qed
qed

lemma reachable_trieInv: "pt_reachable t \<Longrightarrow> trieInv t"
proof (induction rule: pt_reachable.induct)
  case pt_new
  show ?case
    by (simp add: trieInv_def newPathTrie_def wellKeyed_createNode stored_createNode)
next
  case (pt_ins t fpath)
  then show ?case by (simp add: trieInv_insert)
next
  case (pt_rem t fpath)
  then show ?case by (simp add: trieInv_remove)
qed

lemma stored_somewhere:
  assumes "wellKeyed n"
  shows "(\<exists>p. storedAt n p f)
       = (f \<in> set (node_files n) \<or> (\<exists>ch \<in> set (map snd (children n)). \<exists>p. storedAt ch p f))"
proof
  assume "\<exists>p. storedAt n p f"
  then obtain p where p: "storedAt n p f" ..
  show "f \<in> set (node_files n) \<or> (\<exists>ch \<in> set (map snd (children n)). \<exists>p. storedAt ch p f)"
  proof (cases p)
    case Nil
    with p show ?thesis by (simp add: stored_Nil)
  next
    case (Cons s rest)
    with p obtain ch where c: "map_of (children n) s = Some ch" and r: "storedAt ch rest f"
      by (auto split: option.splits)
    from c have "(s, ch) \<in> set (children n)" by (rule map_of_SomeD)
    then have "ch \<in> set (map snd (children n))" by force
    with r show ?thesis by blast
  qed
next
  assume "f \<in> set (node_files n) \<or> (\<exists>ch \<in> set (map snd (children n)). \<exists>p. storedAt ch p f)"
  then show "\<exists>p. storedAt n p f"
  proof
    assume "f \<in> set (node_files n)"
    then have "storedAt n [] f" by (simp add: stored_Nil)
    then show ?thesis ..
  next
    assume "\<exists>ch \<in> set (map snd (children n)). \<exists>p. storedAt ch p f"
    then obtain s ch p where m: "(s, ch) \<in> set (children n)" and p: "storedAt ch p f" by auto
    from assms m have "map_of (children n) s = Some ch"
      by (simp add: wellKeyed_children)
    with p have "storedAt n (s # p) f" by simp
    then show ?thesis ..
  qed
qed

lemma collectQueue_set:
  "(\<And>n. n \<in> set q \<Longrightarrow> wellKeyed n)
   \<Longrightarrow> set (collectQueue q) = {f. \<exists>n \<in> set q. \<exists>p. storedAt n p f}"
proof (induction q rule: collectQueue.induct)
  case 1
  show ?case by simp
next
  case (2 current queue)
  have w: "wellKeyed n" if "n \<in> set (queue @ map snd (children current))" for n
  proof -
    from that have "n \<in> set queue \<or> (\<exists>k. (k, n) \<in> set (children current))" by auto
    with 2(2) show ?thesis by (auto dest: wellKeyed_member)
  qed
  have c: "wellKeyed current" using 2(2) by simp
  from 2(1) [OF w]
  have "set (collectQueue (queue @ map snd (children current)))
      = {f. \<exists>n \<in> set (queue @ map snd (children current)). \<exists>p. storedAt n p f}"
    by simp
  then have "set (collectQueue (current # queue))
      = set (node_files current)
        \<union> {f. \<exists>n \<in> set queue. \<exists>p. storedAt n p f}
        \<union> {f. \<exists>ch \<in> set (map snd (children current)). \<exists>p. storedAt ch p f}"
    by auto
  also have "\<dots> = {f. \<exists>p. storedAt current p f} \<union> {f. \<exists>n \<in> set queue. \<exists>p. storedAt n p f}"
    using stored_somewhere [OF c] by auto
  finally show ?case by auto
qed

lemma collectFiles_set: "wellKeyed n \<Longrightarrow> set (collectFiles n) = {f. \<exists>p. storedAt n p f}"
  using collectQueue_set [of "[n]"] by (simp add: collectFiles_def)

lemma matchPrefix_set:
  assumes "trieInv t" and "pre \<noteq> []"
  shows "set (matchPrefix t pre)
       = {f \<in> set (pt_allFiles t). fileNameOf f \<noteq> []
            \<and> prefix (nodePathOf (normalizePath pre)) (nodePathOf f)}"
proof -
  let ?q = "nodePathOf (normalizePath pre)"
  from assms(1) have i: "\<And>p f. storedAt (pt_root t) p f
      = (f \<in> set (pt_allFiles t) \<and> fileNameOf f \<noteq> [] \<and> p = nodePathOf f)"
    and w: "wellKeyed (pt_root t)"
    by (simp_all add: trieInv_def)
  have q: "filter (\<lambda>s. 0 < length s) (split_on CHR ''/'' (normalizePath pre)) = ?q"
    by (simp add: nodePathOf_def)
  have r: "{f. \<exists>p. storedAt (pt_root t) (?q @ p) f}
      = {f \<in> set (pt_allFiles t). fileNameOf f \<noteq> [] \<and> prefix ?q (nodePathOf f)}"
    by (auto simp add: i prefix_def) metis
  show ?thesis
  proof (cases "nodeAt (pt_root t) ?q")
    case None
    then have "\<not> storedAt (pt_root t) (?q @ p) f" for p f
      by (simp add: nodeAt_stored)
    with r have "{f \<in> set (pt_allFiles t). fileNameOf f \<noteq> [] \<and> prefix ?q (nodePathOf f)} = {}"
      by auto
    with None assms(2) show ?thesis
      by (simp add: matchPrefix_def Let_def q del: length_greater_0_conv)
  next
    case (Some m)
    with w have "wellKeyed m" by (rule nodeAt_wellKeyed)
    then have "set (collectFiles m) = {f. \<exists>p. storedAt m p f}" by (rule collectFiles_set)
    also have "\<dots> = {f. \<exists>p. storedAt (pt_root t) (?q @ p) f}"
      by (simp add: nodeAt_stored Some)
    finally have "set (collectFiles m)
        = {f \<in> set (pt_allFiles t). fileNameOf f \<noteq> [] \<and> prefix ?q (nodePathOf f)}"
      using r by simp
    with Some assms(2) show ?thesis
      by (simp add: matchPrefix_def Let_def q del: length_greater_0_conv)
  qed
qed

lemma matchGlob_set:
  assumes "trieInv t"
  shows "set (matchGlob mm t pattern)
       = (if pattern = [] then set (getAllFiles t)
          else {f \<in> set (getAllFiles t). mm f pattern \<and> underLiteralPrefix pattern f})"
proof (cases "pattern = []")
  case True
  then show ?thesis by (simp add: matchGlob_def)
next
  case False
  show ?thesis
  proof (cases "extractSimplePrefix pattern = []")
    case True
    with False show ?thesis
      by (auto simp add: matchGlob_def Let_def underLiteralPrefix_def)
  next
    case ne: False
    from matchPrefix_set [OF assms ne] False ne show ?thesis
      by (auto simp add: matchGlob_def Let_def underLiteralPrefix_def getAllFiles_def)
  qed
qed

lemma matchGlob_reachable:
  assumes "pt_reachable t"
  shows "set (matchGlob mm t pattern)
       = (if pattern = [] then set (getAllFiles t)
          else {f \<in> set (getAllFiles t). mm f pattern \<and> underLiteralPrefix pattern f})"
  using assms by (intro matchGlob_set reachable_trieInv)

text \<open>
  For the empty pattern \<open>matchGlob\<close> returns at its first line with all the files, where
  the matcher selects none of them.
\<close>

lemma matchGlob_empty_pattern:
  "set (matchGlob globMatch (pt_insert newPathTrie ''a.md'') []) = {''a.md''}
   \<and> {f \<in> set (getAllFiles (pt_insert newPathTrie ''a.md'')). globMatch f []} = {}"
proof -
  have a: "getAllFiles (pt_insert newPathTrie ''a.md'') = [''a.md'']"
    by code_simp
  have g: "\<not> globMatch ''a.md'' []" by code_simp
  have 1: "set (matchGlob globMatch (pt_insert newPathTrie ''a.md'') []) = {''a.md''}"
    by (simp add: matchGlob_def a)
  have 2: "{f \<in> set (getAllFiles (pt_insert newPathTrie ''a.md'')). globMatch f []} = {}"
    unfolding a using g by simp
  from 1 2 show ?thesis by (intro conjI)
qed

text \<open>
  A stored path that ends in \<open>/\<close> is in the file set but
  at no node of the trie, so a pattern with a literal prefix does not return it even when
  the matcher selects it.
\<close>

lemma matchGlob_trailing_slash:
  "getAllFiles (pt_insert newPathTrie ''a/'') = [''a/'']
   \<and> globMatch ''a/'' ''a/''
   \<and> matchGlob globMatch (pt_insert newPathTrie ''a/'') ''a/'' = []"
proof -
  have 1: "getAllFiles (pt_insert newPathTrie ''a/'') = [''a/'']" by code_simp
  have 2: "globMatch ''a/'' ''a/''" by code_simp
  have 3: "matchGlob globMatch (pt_insert newPathTrie ''a/'') ''a/'' = []" by code_simp
  from 1 2 3 show ?thesis by (intro conjI)
qed

text \<open>
  And \<open>remove\<close> of a path with an empty segment before
  its last segment throws in its clean-up loop, after the file has left the file set.
\<close>

lemma pt_remove_throws:
  "snd (pt_remove (pt_insert newPathTrie ''//a'') ''//a'') = Some TypeError
   \<and> getAllFiles (fst (pt_remove (pt_insert newPathTrie ''//a'') ''//a'')) = []"
proof -
  have 1: "snd (pt_remove (pt_insert newPathTrie ''//a'') ''//a'') = Some TypeError" by code_simp
  have 2: "getAllFiles (fst (pt_remove (pt_insert newPathTrie ''//a'') ''//a'')) = []" by code_simp
  from 1 2 show ?thesis by (intro conjI)
qed

subsection \<open>A matcher that works segment by segment\<close>

lemma split_on_pieces:
  "s \<in> set (split_on c xs) \<Longrightarrow> c \<notin> set s \<and> set s \<subseteq> set xs"
proof (induction xs arbitrary: s)
  case Nil
  then show ?case by simp
next
  case (Cons x xs)
  show ?case
  proof (cases "x = c")
    case True
    with Cons show ?thesis by auto
  next
    case False
    obtain p ps where e: "split_on c xs = p # ps"
      using split_on_nonempty [of c xs] by (cases "split_on c xs") auto
    with False Cons.prems have "s = x # p \<or> s \<in> set ps" by auto
    then show ?thesis
    proof
      assume "s = x # p"
      moreover from e have "p \<in> set (split_on c xs)" by simp
      ultimately show ?thesis using Cons.IH [of p] False by auto
    next
      assume "s \<in> set ps"
      with e have "s \<in> set (split_on c xs)" by simp
      then show ?thesis using Cons.IH [of s] by auto
    qed
  qed
qed

lemma split_on_free: "c \<notin> set p \<Longrightarrow> split_on c p = [p]"
  by (induction p) auto

lemma split_on_append: "c \<notin> set p \<Longrightarrow> split_on c (p @ c # rest) = p # split_on c rest"
  by (induction p) auto

lemma split_on_join_with:
  "ps \<noteq> [] \<Longrightarrow> (\<And>p. p \<in> set ps \<Longrightarrow> c \<notin> set p) \<Longrightarrow> split_on c (join_with [c] ps) = ps"
proof (induction "[c]" ps rule: join_with.induct)
  case 1
  then show ?case by simp
next
  case (2 p)
  then show ?case by (simp add: split_on_free)
next
  case (3 p q ps)
  then show ?case by (simp add: split_on_append)
qed

lemma join_chars:
  "x \<in> set (join_with sep ps) \<Longrightarrow> x \<in> set sep \<or> (\<exists>p \<in> set ps. x \<in> set p)"
  by (induction sep ps rule: join_with.induct) auto

lemma normalizePath_clean: "CHR 0x5C \<notin> set s \<Longrightarrow> normalizePath s = s"
  by (induction s) (auto simp add: normalizePath_def)

lemma normalizePath_chars: "CHR 0x5C \<notin> set (normalizePath s)"
  by (auto simp add: normalizePath_def)

lemma segmentMatch_literal:
  "segmentMatch p s \<Longrightarrow> CHR ''*'' \<notin> set p \<Longrightarrow> CHR ''?'' \<notin> set p \<Longrightarrow> p = s"
  by (induction p s rule: segmentMatch.induct) (auto split: if_splits)

lemma segmentsMatch_prefix:
  "segmentsMatch ps ss \<Longrightarrow> prefix (takeWhile literalSegment ps) ss"
proof (induction ps ss rule: segmentsMatch.induct)
  case (1 ss)
  then show ?case by simp
next
  case (2 p ps)
  then show ?case by (simp add: literalSegment_def)
next
  case (3 p ps s ss)
  show ?case
  proof (cases "literalSegment p")
    case False
    then show ?thesis by simp
  next
    case True
    then have n: "p \<noteq> ''**''" by (auto simp add: literalSegment_def)
    with "3.prems" have m: "segmentMatch p s" and r: "segmentsMatch ps ss" by simp_all
    from m True have "p = s" by (auto simp add: literalSegment_def dest: segmentMatch_literal)
    with True n r "3.IH" show ?thesis by simp
  qed
qed

lemma prefix_filter: "prefix xs ys \<Longrightarrow> prefix (filter P xs) (filter P ys)"
  by (auto simp add: prefix_def)

lemma globMatch_underLiteralPrefix:
  assumes "globMatch f pattern" and "fileNameOf f \<noteq> []" and "CHR 0x5C \<notin> set f"
  shows "underLiteralPrefix pattern f"
proof (cases "extractSimplePrefix pattern = []")
  case True
  then show ?thesis by (simp add: underLiteralPrefix_def)
next
  case False
  let ?lit = "takeWhile literalSegment (split_on CHR ''/'' pattern)"
  let ?ss = "split_on CHR ''/'' f"
  have e: "extractSimplePrefix pattern = join_with ''/'' ?lit"
    by (simp add: extractSimplePrefix_def literalSegment_def [abs_def])
  from assms(1) have p: "prefix ?lit ?ss"
    by (simp add: globMatch_def segmentsMatch_prefix)
  then have s: "set ?lit \<subseteq> set ?ss" by (auto simp add: prefix_def)
  have c: "CHR ''/'' \<notin> set q \<and> set q \<subseteq> set f" if "q \<in> set ?lit" for q
    using that s split_on_pieces [of q "CHR ''/''" f] by blast
  from False e have n: "?lit \<noteq> []" by auto
  have "CHR 0x5C \<notin> set (join_with ''/'' ?lit)"
  proof
    assume "CHR 0x5C \<in> set (join_with ''/'' ?lit)"
    from join_chars [OF this] obtain q where "q \<in> set ?lit" and "CHR 0x5C \<in> set q" by auto
    with c [of q] assms(3) show False by auto
  qed
  then have "normalizePath (extractSimplePrefix pattern) = join_with ''/'' ?lit"
    by (simp add: e normalizePath_clean)
  moreover have "split_on CHR ''/'' (join_with ''/'' ?lit) = ?lit"
    using n c by (intro split_on_join_with) auto
  ultimately have "nodePathOf (normalizePath (extractSimplePrefix pattern))
      = filter (\<lambda>s. s \<noteq> []) ?lit"
    by (simp add: nodePathOf_def)
  moreover from p have "prefix (filter (\<lambda>s. s \<noteq> []) ?lit) (nodePathOf f)"
    unfolding nodePathOf_def by (rule prefix_filter)
  ultimately show ?thesis using assms(2) by (simp add: underLiteralPrefix_def)
qed

lemma pt_insert_files:
  "set (pt_allFiles (pt_insert t fpath)) \<subseteq> set (pt_allFiles t) \<union> {normalizePath fpath}"
  by (auto simp add: pt_insert_def Let_def)

lemma pt_remove_files: "set (pt_allFiles (fst (pt_remove t fpath))) \<subseteq> set (pt_allFiles t)"
  by (auto simp add: pt_remove_def Let_def split_def split: option.splits)

lemma reachable_normalized:
  "pt_reachable t \<Longrightarrow> f \<in> set (pt_allFiles t) \<Longrightarrow> CHR 0x5C \<notin> set f"
proof (induction arbitrary: f rule: pt_reachable.induct)
  case pt_new
  then show ?case by (simp add: newPathTrie_def)
next
  case (pt_ins t fpath)
  from pt_ins.prems pt_insert_files [of t fpath]
  have "f \<in> set (pt_allFiles t) \<or> f = normalizePath fpath" by auto
  then show ?case using pt_ins.IH normalizePath_chars by auto
next
  case (pt_rem t fpath)
  from pt_rem.prems pt_remove_files [of t fpath] have "f \<in> set (pt_allFiles t)" by auto
  then show ?case by (rule pt_rem.IH)
qed

text \<open>
  With a matcher that works segment by segment, every selected path begins with the
  literal segments of the pattern. So when no stored path ends in \<open>/\<close>, \<open>matchGlob\<close> with a
  non-empty pattern is the glob filter over the file set.
\<close>

lemma matchGlob_segmentwise:
  assumes "pt_reachable t" and "pattern \<noteq> []"
    and "\<And>f. f \<in> set (getAllFiles t) \<Longrightarrow> fileNameOf f \<noteq> []"
  shows "set (matchGlob globMatch t pattern) = {f \<in> set (getAllFiles t). globMatch f pattern}"
proof -
  have "underLiteralPrefix pattern f" if "f \<in> set (getAllFiles t)" and "globMatch f pattern" for f
    using that assms(1,3) reachable_normalized [of t f]
    by (intro globMatch_underLiteralPrefix) (auto simp add: getAllFiles_def)
  with matchGlob_reachable [OF assms(1), of globMatch pattern] assms(2) show ?thesis by auto
qed

text \<open>
  C9. The claim is that \<open>matchGlob\<close> returns, as a set, exactly the files that glob
  semantics select from \<open>getAllFiles()\<close>, for every pattern. The code does otherwise.
  \<open>extractSimplePrefix\<close> takes every segment without \<open>*\<close>, \<open>?\<close> and \<open>[\<close> for a literal one,
  also a segment with braces. In the trie with the files \<open>a.md\<close>, \<open>b.md\<close> and \<open>c.md\<close> the
  pattern \<open>{a,b}.md\<close> is its own literal prefix; no node has that name, so the candidates
  are none and \<open>matchGlob\<close> returns nothing, whatever the matcher is. Glob semantics
  select \<open>a.md\<close> and \<open>b.md\<close>, and so does the sibling path of the service: the same call of
  \<open>filterFilesByPattern\<close> returns the two files without the trie and none with it.
\<close>

theorem C9_brace_pattern_loses_matches:
  "pt_reachable (pt_insert (pt_insert (pt_insert newPathTrie ''a.md'') ''b.md'') ''c.md'')
   \<and> getAllFiles (pt_insert (pt_insert (pt_insert newPathTrie ''a.md'') ''b.md'') ''c.md'')
       = [''a.md'', ''b.md'', ''c.md'']
   \<and> matchGlob mm (pt_insert (pt_insert (pt_insert newPathTrie ''a.md'') ''b.md'') ''c.md'')
        ''{a,b}.md'' = []
   \<and> filter (\<lambda>file. braceGlobMatch file ''{a,b}.md'')
        (getAllFiles (pt_insert (pt_insert (pt_insert newPathTrie ''a.md'') ''b.md'') ''c.md''))
       = [''a.md'', ''b.md'']
   \<and> filterFilesByPattern braceGlobMatch
        (Some (pt_insert (pt_insert (pt_insert newPathTrie ''a.md'') ''b.md'') ''c.md''))
        [''a.md'', ''b.md'', ''c.md''] (Some ''{a,b}.md'') = []
   \<and> filterFilesByPattern braceGlobMatch None
        [''a.md'', ''b.md'', ''c.md''] (Some ''{a,b}.md'') = [''a.md'', ''b.md'']"
proof -
  let ?t = "pt_insert (pt_insert (pt_insert newPathTrie ''a.md'') ''b.md'') ''c.md''"
  have r: "pt_reachable ?t"
    by (intro pt_ins pt_new)
  have a: "getAllFiles ?t = [''a.md'', ''b.md'', ''c.md'']"
    by code_simp
  have n: "pt_fileCount ?t = 3"
    by code_simp
  have e: "extractSimplePrefix ''{a,b}.md'' = ''{a,b}.md''"
    by code_simp
  have p: "matchPrefix ?t ''{a,b}.md'' = []"
    by code_simp
  have m: "matchGlob mm ?t ''{a,b}.md'' = []" for mm
    by (simp add: matchGlob_def e p)
  have f: "filter (\<lambda>file. braceGlobMatch file ''{a,b}.md'') [''a.md'', ''b.md'', ''c.md'']
      = [''a.md'', ''b.md'']"
    by code_simp
  have 1: "filterFilesByPattern braceGlobMatch (Some ?t) [''a.md'', ''b.md'', ''c.md'']
      (Some ''{a,b}.md'') = []"
    by (simp add: filterFilesByPattern_def n m)
  have 2: "filterFilesByPattern braceGlobMatch None [''a.md'', ''b.md'', ''c.md'']
      (Some ''{a,b}.md'') = [''a.md'', ''b.md'']"
    by code_simp
  from r a m [of mm] f 1 2 show ?thesis
    unfolding a by (intro conjI)
qed

end
